theory Spec2Isabelle
  imports Complex_Main "HOL-Library.Multiset" "HOL-Library.Sublist"
begin

section \<open>The dialog store of \<^verbatim>\<open>src/stores/dialogStore.ts\<close>\<close>

text \<open>
  The store keeps an array of dialog instances (\<^verbatim>\<open>dialogStack\<close>) and the key of the active
  dialog (\<^verbatim>\<open>activeKey\<close>). Every function of the store is embedded as a function on an
  explicit store value. Conventions of the embedding:

  \<^item> a JavaScript value that may be \<^verbatim>\<open>undefined\<close> (or \<^verbatim>\<open>null\<close>) is an \<open>option\<close>, with \<open>None\<close>
    for \<^verbatim>\<open>undefined\<close>;
  \<^item> an optional property of an options bag is a \<open>property\<close>: it may be absent, or present with a
    value that may itself be \<^verbatim>\<open>undefined\<close> (an object spread copies such a property);
  \<^item> components, pass-through bags, property values and callbacks are opaque values of a
    type parameter \<open>'a\<close>;
  \<^item> \<^verbatim>\<open>priority\<close> is a JavaScript \<^verbatim>\<open>number\<close>: a rational (every finite double is one; the two
    zeros compare equal and are one value here), \<^verbatim>\<open>Infinity\<close>, \<^verbatim>\<open>-Infinity\<close> or \<^verbatim>\<open>NaN\<close>, compared
    by \<open>lessEq\<close>, the operator \<^verbatim>\<open><=\<close>, which is false whenever an operand is \<^verbatim>\<open>NaN\<close>;
  \<^item> the array holds each dialog object once, so an object is identified by its index:
    \<^verbatim>\<open>find\<close> followed by \<^verbatim>\<open>indexOf\<close> or by \<^verbatim>\<open>===\<close> is the index of the first match;
  \<^item> the \<^verbatim>\<open>onClose\<close> callbacks that have run are recorded, in order, in \<open>onCloseCalls\<close>;
    a callback is taken not to call back into the store;
  \<^item> the closures \<^verbatim>\<open>onMaximize\<close>, \<^verbatim>\<open>onUnmaximize\<close>, \<^verbatim>\<open>onAfterHide\<close> and the \<^verbatim>\<open>onMousedown\<close> hook
    merged into \<^verbatim>\<open>pt\<close> are fixed by the dialog they belong to and are not stored; the props of the
    \<^verbatim>\<open>GlobalDialog\<close> component, declared outside these sources, are not modelled.
\<close>

subsection \<open>Data model\<close>

datatype DialogPosition =
  PosCenter | PosTop | PosBottom | PosLeft | PosRight
  | PosTopleft | PosTopright | PosBottomleft | PosBottomright

datatype 'v property = Absent | Present 'v

text \<open>JavaScript numbers and their comparison \<^verbatim>\<open>x <= y\<close>.\<close>

datatype number = Num rat | PosInfinity | NegInfinity | NaN

fun lessEq :: "number \<Rightarrow> number \<Rightarrow> bool" where
  "lessEq NaN y = False"
| "lessEq x NaN = False"
| "lessEq NegInfinity y = True"
| "lessEq x PosInfinity = True"
| "lessEq PosInfinity y = False"
| "lessEq x NegInfinity = False"
| "lessEq (Num a) (Num b) = (a \<le> b)"

text \<open>\<^verbatim>\<open>{ p: d, ...bag }\<close>: a property present in the bag overrides the default \<open>d\<close>.\<close>

fun spread :: "'v option \<Rightarrow> 'v option property \<Rightarrow> 'v option" where
  "spread d Absent = d"
| "spread d (Present v) = v"

text \<open>\<^verbatim>\<open>!!x\<close> for a boolean that may be \<^verbatim>\<open>undefined\<close>.\<close>

fun truthy :: "bool option \<Rightarrow> bool" where
  "truthy (Some b) = b"
| "truthy None = False"

text \<open>The bag \<^verbatim>\<open>CustomDialogComponentProps\<close> as a caller passes it.\<close>

record 'a CustomDialogComponentProps =
  given_maximizable :: "bool option property"
  given_maximized :: "bool option property"
  given_onClose :: "'a option property"
  given_closable :: "bool option property"
  given_modal :: "bool option property"
  given_position :: "DialogPosition option property"
  given_pt :: "'a option property"
  given_closeOnEscape :: "bool option property"
  given_dismissableMask :: "bool option property"

text \<open>The \<^verbatim>\<open>dialogComponentProps\<close> object of a dialog instance.\<close>

record 'a DialogComponentProps =
  maximizable :: "bool option"
  maximized :: "bool option"
  onClose :: "'a option"
  closable :: "bool option"
  modal :: "bool option"
  position :: "DialogPosition option"
  pt :: "'a option"
  closeOnEscape :: "bool option"
  dismissableMask :: "bool option"

record 'a DialogInstance =
  key :: string
  visible :: bool
  title :: "string option"
  headerComponent :: "'a option"
  component :: 'a
  contentProps :: "(string \<times> 'a) list"
  footerComponent :: "'a option"
  dialogComponentProps :: "'a DialogComponentProps"
  priority :: number

record 'a ShowDialogOptions =
  opt_key :: "string option"
  opt_title :: "string option"
  opt_headerComponent :: "'a option"
  opt_footerComponent :: "'a option"
  opt_component :: 'a
  opt_props :: "(string \<times> 'a) list option"
  opt_dialogComponentProps :: "'a CustomDialogComponentProps option"
  opt_priority :: "number option"

record 'a store =
  dialogStack :: "'a DialogInstance list"
  activeKey :: "string option"
  onCloseCalls :: "'a list"

definition initial :: "'a store" where
  "initial = \<lparr>dialogStack = [], activeKey = None, onCloseCalls = []\<rparr>"

subsection \<open>Array and string primitives\<close>

text \<open>\<^verbatim>\<open>Array.prototype.findIndex\<close>: the index of the first match, \<open>-1\<close> when there is none.\<close>

fun findIndex :: "('b \<Rightarrow> bool) \<Rightarrow> 'b list \<Rightarrow> int" where
  "findIndex P [] = - 1"
| "findIndex P (x # xs) =
     (if P x then 0
      else (let i = findIndex P xs in if i = - 1 then - 1 else i + 1))"

text \<open>\<^verbatim>\<open>xs.splice(start, deleteCount, ...items)\<close> for \<open>0 \<le> start\<close>; the array that remains.\<close>

definition splice_js :: "nat \<Rightarrow> nat \<Rightarrow> 'b list \<Rightarrow> 'b list \<Rightarrow> 'b list" where
  "splice_js start deleteCount items xs = take start xs @ items @ drop (start + deleteCount) xs"

text \<open>\<^verbatim>\<open>xs.shift()\<close>: the array that remains.\<close>

definition shift_js :: "'b list \<Rightarrow> 'b list" where
  "shift_js xs = drop 1 xs"

text \<open>\<^verbatim>\<open>s.slice(start, end)\<close> for \<open>0 \<le> start \<le> end\<close>.\<close>

definition slice :: "nat \<Rightarrow> nat \<Rightarrow> string \<Rightarrow> string" where
  "slice start stop s = take (stop - start) (drop start s)"

definition startsWith :: "string \<Rightarrow> string \<Rightarrow> bool" where
  "startsWith s p = (take (length p) s = p)"

subsection \<open>The store's functions\<close>

text \<open>
  \<^verbatim>\<open>genDialogKey\<close>. The argument is the string \<^verbatim>\<open>Math.random().toString(36)\<close>: \<^verbatim>\<open>0\<close> for the
  number zero, otherwise \<^verbatim>\<open>0.\<close> followed by the base-36 digits of the fraction.
\<close>

definition genDialogKey :: "string \<Rightarrow> string" where
  "genDialogKey rnd36 = ''dialog-'' @ slice 2 9 rnd36"

text \<open>The first argument of the \<^verbatim>\<open>splice\<close> call in \<^verbatim>\<open>insertDialogByPriority\<close>.\<close>

definition insertPosition :: "'a DialogInstance \<Rightarrow> 'a DialogInstance list \<Rightarrow> nat" where
  "insertPosition dialog stack =
     (let insertIndex = findIndex (\<lambda>d. lessEq (priority d) (priority dialog)) stack
      in if insertIndex = - 1 then length stack else nat insertIndex)"

definition insertDialogByPriority :: "'a DialogInstance \<Rightarrow> 'a store \<Rightarrow> 'a store" where
  "insertDialogByPriority dialog st =
     st\<lparr>dialogStack := splice_js (insertPosition dialog (dialogStack st)) 0 [dialog] (dialogStack st)\<rparr>"

definition updateCloseOnEscapeStates :: "'a store \<Rightarrow> 'a store" where
  "updateCloseOnEscapeStates st =
     (let topDialog = findIndex (\<lambda>d. Some (key d) = activeKey st) (dialogStack st);
          topClosable =
            (if topDialog = - 1 then None
             else closable (dialogComponentProps (dialogStack st ! nat topDialog)))
      in st\<lparr>dialogStack :=
            map (\<lambda>(i, dialog).
                   dialog\<lparr>dialogComponentProps :=
                     (dialogComponentProps dialog)
                       \<lparr>closeOnEscape := Some (int i = topDialog \<and> truthy topClosable)\<rparr>\<rparr>)
                (enumerate 0 (dialogStack st))\<rparr>)"

definition riseDialog :: "string \<Rightarrow> 'a store \<Rightarrow> 'a store" where
  "riseDialog dialogKey st =
     (let index = findIndex (\<lambda>d. key d = dialogKey) (dialogStack st)
      in if index \<noteq> - 1 then
           (let dialog = dialogStack st ! nat index;
                st1 = st\<lparr>dialogStack := splice_js (nat index) 1 [] (dialogStack st)\<rparr>;
                st2 = insertDialogByPriority dialog st1;
                st3 = st2\<lparr>activeKey := Some dialogKey\<rparr>
            in updateCloseOnEscapeStates st3)
         else st)"

text \<open>The index at which \<^verbatim>\<open>riseDialog\<close> leaves the dialog it has moved.\<close>

definition risePosition :: "string \<Rightarrow> 'a store \<Rightarrow> nat" where
  "risePosition dialogKey st =
     (let index = nat (findIndex (\<lambda>d. key d = dialogKey) (dialogStack st))
      in insertPosition (dialogStack st ! index) (splice_js index 1 [] (dialogStack st)))"

text \<open>\<^verbatim>\<open>closeDialog(options?)\<close>: the argument is \<open>Some k\<close> for \<^verbatim>\<open>{ key: k }\<close>, \<open>None\<close> for no argument.\<close>

definition closeDialog :: "string option \<Rightarrow> 'a store \<Rightarrow> 'a store" where
  "closeDialog options st =
     (let index =
            (case options of
               Some k \<Rightarrow> findIndex (\<lambda>d. key d = k) (dialogStack st)
             | None \<Rightarrow> findIndex (\<lambda>d. Some (key d) = activeKey st) (dialogStack st))
      in if index = - 1 then st
         else
           (let targetDialog = dialogStack st ! nat index;
                calls =
                  (case onClose (dialogComponentProps targetDialog) of
                     Some cb \<Rightarrow> onCloseCalls st @ [cb]
                   | None \<Rightarrow> onCloseCalls st);
                stack = splice_js (nat index) 1 [] (dialogStack st);
                st1 = st\<lparr>dialogStack := stack, onCloseCalls := calls\<rparr>;
                st2 = st1\<lparr>activeKey :=
                        (if length stack > 0 then Some (key (stack ! (length stack - 1)))
                         else None)\<rparr>
            in updateCloseOnEscapeStates st2))"

text \<open>
  \<^verbatim>\<open>createDialog({ ...options, key })\<close>. The result is the dialog object as the caller
  holds it when the call returns, read at the index where it was inserted.
\<close>

text \<open>
  \<^verbatim>\<open>{ p: d, ...options.dialogComponentProps }\<close>, read at \<^verbatim>\<open>p\<close>: spreading \<^verbatim>\<open>undefined\<close> adds
  nothing.
\<close>

definition spreadGiven :: "'v option \<Rightarrow> ('g \<Rightarrow> 'v option property) \<Rightarrow> 'g option \<Rightarrow> 'v option" where
  "spreadGiven d f given = (case given of None \<Rightarrow> d | Some g \<Rightarrow> spread d (f g))"

definition newDialog :: "string \<Rightarrow> 'a ShowDialogOptions \<Rightarrow> 'a DialogInstance" where
  "newDialog k options =
     (let given = opt_dialogComponentProps options
      in \<lparr>key = k,
          visible = True,
          title = opt_title options,
          headerComponent = opt_headerComponent options,
          component = opt_component options,
          contentProps = (case opt_props options of None \<Rightarrow> [] | Some ps \<Rightarrow> ps),
          footerComponent = opt_footerComponent options,
          dialogComponentProps =
            \<lparr>maximizable = spreadGiven (Some False) given_maximizable given,
             maximized = Some False,
             onClose = spreadGiven None given_onClose given,
             closable = spreadGiven (Some True) given_closable given,
             modal = spreadGiven (Some True) given_modal given,
             position = spreadGiven None given_position given,
             pt = spreadGiven None given_pt given,
             closeOnEscape = spreadGiven (Some True) given_closeOnEscape given,
             dismissableMask = spreadGiven (Some True) given_dismissableMask given\<rparr>,
          priority = (case opt_priority options of None \<Rightarrow> Num 1 | Some p \<Rightarrow> p)\<rparr>)"

definition createDialog ::
  "string \<Rightarrow> 'a ShowDialogOptions \<Rightarrow> 'a store \<Rightarrow> 'a DialogInstance \<times> 'a store" where
  "createDialog k options st =
     (let st1 = (if length (dialogStack st) \<ge> 10
                 then st\<lparr>dialogStack := shift_js (dialogStack st)\<rparr> else st);
          dialog = newDialog k options;
          st2 = insertDialogByPriority dialog st1;
          st3 = st2\<lparr>activeKey := Some k\<rparr>;
          st4 = updateCloseOnEscapeStates st3
      in (dialogStack st4 ! insertPosition dialog (dialogStack st1), st4))"

text \<open>
  \<^verbatim>\<open>showDialog(options)\<close>; \<open>rnd36\<close> is the random string that \<^verbatim>\<open>genDialogKey\<close> reads when
  \<^verbatim>\<open>options.key\<close> is missing or empty.
\<close>

definition showDialog ::
  "'a ShowDialogOptions \<Rightarrow> string \<Rightarrow> 'a store \<Rightarrow> 'a DialogInstance \<times> 'a store" where
  "showDialog options rnd36 st =
     (let dialogKey =
            (case opt_key options of
               Some k \<Rightarrow> if k \<noteq> [] then k else genDialogKey rnd36
             | None \<Rightarrow> genDialogKey rnd36);
          index = findIndex (\<lambda>d. key d = dialogKey) (dialogStack st)
      in if index \<noteq> - 1 then
           (let st1 = st\<lparr>dialogStack :=
                        (dialogStack st)[nat index := (dialogStack st ! nat index)\<lparr>visible := True\<rparr>]\<rparr>;
                st2 = riseDialog dialogKey st1
            in (dialogStack st2 ! risePosition dialogKey st1, st2))
         else createDialog dialogKey options st)"

text \<open>\<^verbatim>\<open>showExtensionDialog(options)\<close>; the result is \<open>None\<close> where the source returns nothing.\<close>

definition showExtensionDialog ::
  "'a ShowDialogOptions \<Rightarrow> 'a store \<Rightarrow> 'a DialogInstance option \<times> 'a store" where
  "showExtensionDialog options st =
     (case opt_key options of
        None \<Rightarrow> (None, st)
      | Some k \<Rightarrow>
          if k = [] then (None, st)
          else
            (let extKey = (if startsWith k ''extension-'' then k else ''extension-'' @ k);
                 index = findIndex (\<lambda>d. key d = extKey) (dialogStack st)
             in if index = - 1 then
                  (let (dialog, st') = createDialog extKey options st in (Some dialog, st'))
                else
                  (let st1 = st\<lparr>dialogStack :=
                               (dialogStack st)[nat index := (dialogStack st ! nat index)\<lparr>visible := True\<rparr>]\<rparr>;
                       st2 = riseDialog extKey st1
                   in (Some (dialogStack st2 ! risePosition extKey st1), st2))))"

definition isDialogOpen :: "string \<Rightarrow> 'a store \<Rightarrow> bool" where
  "isDialogOpen k st = list_ex (\<lambda>d. key d = k) (dialogStack st)"

subsection \<open>Public operations and reachable stores\<close>

datatype 'a operation =
  Show "'a ShowDialogOptions" string
  | ShowExtension "'a ShowDialogOptions"
  | Rise string
  | Close "string option"

fun perform :: "'a operation \<Rightarrow> 'a store \<Rightarrow> 'a store" where
  "perform (Show options rnd36) st = snd (showDialog options rnd36 st)"
| "perform (ShowExtension options) st = snd (showExtensionDialog options st)"
| "perform (Rise k) st = riseDialog k st"
| "perform (Close options) st = closeDialog options st"

inductive reachable :: "'a store \<Rightarrow> bool" where
  reachable_initial: "reachable initial"
| reachable_perform: "reachable st \<Longrightarrow> reachable (perform op st)"

subsection \<open>Notions used to state the properties\<close>

text \<open>A dialog with its \<^verbatim>\<open>closeOnEscape\<close> flag blanked: what every operation leaves alone.\<close>

definition forgetEscape :: "'a DialogInstance \<Rightarrow> 'a DialogInstance" where
  "forgetEscape d = d\<lparr>dialogComponentProps := (dialogComponentProps d)\<lparr>closeOnEscape := None\<rparr>\<rparr>"

text \<open>
  A dialog placed in a stack immediately before the first dialog whose priority is at most
  its own (in the sense of \<^verbatim>\<open><=\<close>), and at the end when there is none.
\<close>

definition placed :: "'a DialogInstance \<Rightarrow> 'a DialogInstance list \<Rightarrow> 'a DialogInstance list" where
  "placed d xs =
     takeWhile (\<lambda>e. \<not> lessEq (priority e) (priority d)) xs @ d # dropWhile (\<lambda>e. \<not> lessEq (priority e) (priority d)) xs"

text \<open>The properties that every public operation keeps.\<close>

definition activeKeyLive :: "'a store \<Rightarrow> bool" where
  "activeKeyLive st =
     (if dialogStack st = [] then activeKey st = None
      else activeKey st \<in> Some ` key ` set (dialogStack st))"

definition escapeFlagsSet :: "'a store \<Rightarrow> bool" where
  "escapeFlagsSet st =
     (\<forall>d\<in>set (dialogStack st).
        closeOnEscape (dialogComponentProps d) =
          Some (Some (key d) = activeKey st \<and> truthy (closable (dialogComponentProps d))))"

text \<open>The dialogs whose priority is not \<^verbatim>\<open>NaN\<close> are in descending order of priority.\<close>

definition prioritySorted :: "'a DialogInstance list \<Rightarrow> bool" where
  "prioritySorted xs =
     sorted_wrt (\<lambda>a b. lessEq (priority b) (priority a)) (filter (\<lambda>d. priority d \<noteq> NaN) xs)"

definition invariant :: "'a store \<Rightarrow> bool" where
  "invariant st =
     (distinct (map key (dialogStack st))
      \<and> [] \<notin> key ` set (dialogStack st)
      \<and> prioritySorted (dialogStack st)
      \<and> length (dialogStack st) \<le> 10
      \<and> activeKeyLive st
      \<and> escapeFlagsSet st)"

text \<open>
  The path that \<^verbatim>\<open>showDialog\<close> and \<^verbatim>\<open>showExtensionDialog\<close> share for a key that is open:
  \<^verbatim>\<open>dialog.visible = true; riseDialog(dialog); return dialog\<close>.
\<close>

definition reshow :: "string \<Rightarrow> 'a store \<Rightarrow> 'a DialogInstance \<times> 'a store" where
  "reshow k st =
     (let index = findIndex (\<lambda>d. key d = k) (dialogStack st);
          st1 = st\<lparr>dialogStack :=
                  (dialogStack st)[nat index := (dialogStack st ! nat index)\<lparr>visible := True\<rparr>]\<rparr>;
          st2 = riseDialog k st1
      in (dialogStack st2 ! risePosition k st1, st2))"

text \<open>The operation reaches \<^verbatim>\<open>createDialog\<close>: it is a show whose key is not open.\<close>

fun creates :: "'a operation \<Rightarrow> 'a store \<Rightarrow> bool" where
  "creates (Show options rnd36) st =
     (\<not> isDialogOpen
          (case opt_key options of
             Some k \<Rightarrow> if k \<noteq> [] then k else genDialogKey rnd36
           | None \<Rightarrow> genDialogKey rnd36) st)"
| "creates (ShowExtension options) st =
     (case opt_key options of
        None \<Rightarrow> False
      | Some k \<Rightarrow>
          k \<noteq> [] \<and>
          \<not> isDialogOpen (if startsWith k ''extension-'' then k else ''extension-'' @ k) st)"
| "creates (Rise k) st = False"
| "creates (Close options) st = False"

text \<open>The operation passes \<^verbatim>\<open>NaN\<close> as the priority of a dialog.\<close>

fun givesNaN :: "'a operation \<Rightarrow> bool" where
  "givesNaN (Show options rnd36) = (opt_priority options = Some NaN)"
| "givesNaN (ShowExtension options) = (opt_priority options = Some NaN)"
| "givesNaN (Rise k) = False"
| "givesNaN (Close options) = False"

text \<open>The flag \<^verbatim>\<open>closeOnEscape\<close> of a dialog is \<^verbatim>\<open>true\<close>.\<close>

definition escapable :: "'a DialogInstance \<Rightarrow> bool" where
  "escapable d = (closeOnEscape (dialogComponentProps d) = Some True)"

text \<open>Options that carry a key and a component and nothing else.\<close>

definition keyOnly :: "string \<Rightarrow> 'a \<Rightarrow> 'a ShowDialogOptions" where
  "keyOnly k c =
     \<lparr>opt_key = Some k, opt_title = None, opt_headerComponent = None,
      opt_footerComponent = None, opt_component = c, opt_props = None,
      opt_dialogComponentProps = None, opt_priority = None\<rparr>"

text \<open>A run of public operations from the initial store.\<close>

definition run :: "'a operation list \<Rightarrow> 'a store" where
  "run ops = fold perform ops initial"

text \<open>Sample stores: two dialogs of priorities 1 and 5, and ten dialogs of priority 1.\<close>

definition twoDialogs :: "unit store" where
  "twoDialogs =
     run [Show (keyOnly ''a'' ()) [], Show ((keyOnly ''b'' ())\<lparr>opt_priority := Some (Num 5)\<rparr>) []]"

definition tenDialogs :: "unit store" where
  "tenDialogs =
     run (map (\<lambda>k. Show (keyOnly k ()) [])
       [''d1'', ''d2'', ''d3'', ''d4'', ''d5'', ''d6'', ''d7'', ''d8'', ''d9'', ''d10''])"

text \<open>A store with one extension dialog, shown under the key \<^verbatim>\<open>foo\<close>.\<close>

definition oneExtension :: "unit store" where
  "oneExtension = run [ShowExtension (keyOnly ''foo'' ())]"

text \<open>A store shown a dialog of priority \<^verbatim>\<open>NaN\<close>, then dialogs of priorities 1 and 5.\<close>

definition nanDialogs :: "unit store" where
  "nanDialogs =
     run [Show ((keyOnly ''a'' ())\<lparr>opt_priority := Some NaN\<rparr>) [],
          Show (keyOnly ''b'' ()) [],
          Show ((keyOnly ''c'' ())\<lparr>opt_priority := Some (Num 5)\<rparr>) []]"

text \<open>A store with one dialog shown by \<^verbatim>\<open>showDialog\<close> under the key \<^verbatim>\<open>foo\<close>.\<close>

definition plainFoo :: "unit store" where
  "plainFoo = run [Show (keyOnly ''foo'' ()) []]"

section \<open>Auxiliary facts\<close>

subsection \<open>Array primitives\<close>

lemma findIndex_ge: "- 1 \<le> findIndex P xs"
  by (induction xs) (auto simp: Let_def)

lemma findIndex_none: "(findIndex P xs = - 1) = (\<forall>x\<in>set xs. \<not> P x)"
proof (induction xs)
  case Nil
  then show ?case by simp
next
  case (Cons x xs)
  have "- 1 \<le> findIndex P xs" by (rule findIndex_ge)
  then have "findIndex P xs + 1 \<noteq> - 1" by arith
  with Cons show ?case by (simp add: Let_def)
qed

lemma findIndex_nonneg: "findIndex P xs \<noteq> - 1 \<Longrightarrow> 0 \<le> findIndex P xs"
  using findIndex_ge [of P xs] by arith

lemma findIndex_first:
  "P d \<Longrightarrow> \<forall>e\<in>set pre. \<not> P e \<Longrightarrow> findIndex P (pre @ d # post) = int (length pre)"
  by (induction pre) (auto simp: Let_def)

lemma findIndex_split:
  assumes "findIndex P xs \<noteq> - 1"
  shows "\<exists>pre d post. xs = pre @ d # post \<and> P d \<and> (\<forall>e\<in>set pre. \<not> P e)"
proof -
  from assms have "\<exists>x\<in>set xs. P x" by (simp add: findIndex_none)
  then show ?thesis by (rule split_list_first_prop)
qed


lemma insertPosition_takeWhile:
  "insertPosition d xs = length (takeWhile (\<lambda>e. \<not> lessEq (priority e) (priority d)) xs)"
proof (cases "findIndex (\<lambda>e. lessEq (priority e) (priority d)) xs = - 1")
  case True
  then have "\<forall>e\<in>set xs. \<not> lessEq (priority e) (priority d)" by (auto simp: findIndex_none)
  then have tw: "takeWhile (\<lambda>e. \<not> lessEq (priority e) (priority d)) xs = xs" by simp
  show ?thesis unfolding insertPosition_def tw using True by simp
next
  case False
  then obtain pre e post where s: "xs = pre @ e # post" "lessEq (priority e) (priority d)"
    "\<forall>x\<in>set pre. \<not> lessEq (priority x) (priority d)"
    using findIndex_split [of "\<lambda>e. lessEq (priority e) (priority d)" xs] by blast
  then have "findIndex (\<lambda>e. lessEq (priority e) (priority d)) xs = int (length pre)"
    by (simp add: findIndex_first)
  moreover have "takeWhile (\<lambda>e. \<not> lessEq (priority e) (priority d)) xs = pre"
    using s by (simp add: takeWhile_append2)
  ultimately show ?thesis by (simp add: insertPosition_def)
qed

lemma splice_insert_placed: "splice_js (insertPosition d xs) 0 [d] xs = placed d xs"
  unfolding splice_js_def placed_def insertPosition_takeWhile
  by (simp add: takeWhile_eq_take [symmetric] dropWhile_eq_drop [symmetric])

lemma splice_remove: "splice_js (length pre) (Suc 0) [] (pre @ d # post) = pre @ post"
  by (simp add: splice_js_def)


lemma findIndex_eq_iff:
  assumes "i < length xs" and "\<And>j. j < i \<Longrightarrow> \<not> P (xs ! j)" and "P (xs ! i)"
  shows "findIndex P xs = int i"
proof -
  have xs: "xs = take i xs @ xs ! i # drop (Suc i) xs"
    using assms(1) by (simp add: id_take_nth_drop)
  have "\<forall>e\<in>set (take i xs). \<not> P e"
    using assms(1,2) by (auto simp: in_set_conv_nth)
  then have "findIndex P (take i xs @ xs ! i # drop (Suc i) xs) = int (length (take i xs))"
    using assms(3) by (rule findIndex_first [rotated])
  with xs assms(1) show ?thesis by simp
qed

lemma findIndex_found:
  assumes "findIndex P xs \<noteq> - 1"
  shows "nat (findIndex P xs) < length xs \<and> P (xs ! nat (findIndex P xs))"
proof -
  obtain pre d post where s: "xs = pre @ d # post" "P d" "\<forall>e\<in>set pre. \<not> P e"
    using findIndex_split [OF assms] by blast
  then have "findIndex P xs = int (length pre)" by (simp add: findIndex_first)
  with s show ?thesis by simp
qed

lemma findIndex_key_distinct:
  assumes "distinct (map key xs)" "i < length xs"
  shows "(findIndex (\<lambda>d. Some (key d) = ak) xs = int i) = (Some (key (xs ! i)) = ak)"
proof
  assume "findIndex (\<lambda>d. Some (key d) = ak) xs = int i"
  then show "Some (key (xs ! i)) = ak"
    using findIndex_found [of "\<lambda>d. Some (key d) = ak" xs] by simp
next
  assume k: "Some (key (xs ! i)) = ak"
  have "\<not> Some (key (xs ! j)) = ak" if "j < i" for j
  proof
    assume "Some (key (xs ! j)) = ak"
    with k have "map key xs ! j = map key xs ! i" using that assms(2) by auto
    moreover have "j < length (map key xs)" "i < length (map key xs)"
      using that assms(2) by simp_all
    ultimately have "j = i" using assms(1) nth_eq_iff_index_eq by blast
    with that show False by simp
  qed
  then show "findIndex (\<lambda>d. Some (key d) = ak) xs = int i"
    using assms(2) k by (intro findIndex_eq_iff) auto
qed

lemma update_activeKey [simp]: "activeKey (updateCloseOnEscapeStates st) = activeKey st"
  by (simp add: updateCloseOnEscapeStates_def Let_def)

lemma update_onCloseCalls [simp]: "onCloseCalls (updateCloseOnEscapeStates st) = onCloseCalls st"
  by (simp add: updateCloseOnEscapeStates_def Let_def)

lemma update_length [simp]:
  "length (dialogStack (updateCloseOnEscapeStates st)) = length (dialogStack st)"
  by (simp add: updateCloseOnEscapeStates_def Let_def)

lemma update_nth:
  assumes "i < length (dialogStack st)"
  shows "dialogStack (updateCloseOnEscapeStates st) ! i =
    (dialogStack st ! i)\<lparr>dialogComponentProps := (dialogComponentProps (dialogStack st ! i))
      \<lparr>closeOnEscape := Some (int i = findIndex (\<lambda>d. Some (key d) = activeKey st) (dialogStack st)
         \<and> truthy (if findIndex (\<lambda>d. Some (key d) = activeKey st) (dialogStack st) = - 1 then None
            else closable (dialogComponentProps (dialogStack st !
               nat (findIndex (\<lambda>d. Some (key d) = activeKey st) (dialogStack st))))))\<rparr>\<rparr>"
  using assms by (simp add: updateCloseOnEscapeStates_def Let_def nth_enumerate_eq)

lemma update_forget:
  "map forgetEscape (dialogStack (updateCloseOnEscapeStates st)) = map forgetEscape (dialogStack st)"
  by (rule nth_equalityI) (simp_all add: update_nth forgetEscape_def)

lemma update_escape:
  assumes "distinct (map key (dialogStack st))" "d \<in> set (dialogStack (updateCloseOnEscapeStates st))"
  shows "closeOnEscape (dialogComponentProps d) =
    Some (Some (key d) = activeKey st \<and> truthy (closable (dialogComponentProps d)))"
proof -
  let ?xs = "dialogStack st"
  let ?top = "findIndex (\<lambda>d. Some (key d) = activeKey st) ?xs"
  from assms(2) obtain i where i: "i < length ?xs" "d = dialogStack (updateCloseOnEscapeStates st) ! i"
    by (auto simp: in_set_conv_nth)
  have top: "(?top = int i) = (Some (key (?xs ! i)) = activeKey st)"
    using assms(1) i(1) by (rule findIndex_key_distinct)
  show ?thesis
  proof (cases "Some (key (?xs ! i)) = activeKey st")
    case True
    with top have "?top = int i" by simp
    with True i show ?thesis by (simp add: update_nth)
  next
    case False
    with top have "?top \<noteq> int i" by simp
    with False i show ?thesis by (simp add: update_nth)
  qed
qed

subsection \<open>Placing a dialog by priority\<close>

lemma placed_Cons:
  "placed d (x # xs) = (if \<not> lessEq (priority x) (priority d) then x # placed d xs else d # x # xs)"
  by (simp add: placed_def)

lemma placed_Nil: "placed d [] = [d]"
  by (simp add: placed_def)

lemma set_placed: "set (placed d xs) = insert d (set xs)"
  by (induction xs) (auto simp: placed_Cons placed_Nil)

lemma mset_placed: "mset (placed d xs) = add_mset d (mset xs)"
  by (induction xs) (auto simp: placed_Cons placed_Nil)

lemma length_placed: "length (placed d xs) = Suc (length xs)"
  by (induction xs) (auto simp: placed_Cons placed_Nil)

lemma distinct_keys_placed:
  "distinct (map key (placed d xs)) = (key d \<notin> key ` set xs \<and> distinct (map key xs))"
  by (induction xs) (auto simp: placed_Cons placed_Nil set_placed)

lemma lessEq_total: "a \<noteq> NaN \<Longrightarrow> b \<noteq> NaN \<Longrightarrow> lessEq a b \<or> lessEq b a"
  by (cases a; cases b) auto

lemma lessEq_trans: "lessEq a b \<Longrightarrow> lessEq b c \<Longrightarrow> lessEq a c"
  by (cases a; cases b; cases c) auto

lemma lessEq_NaN: "lessEq a b \<Longrightarrow> a \<noteq> NaN \<and> b \<noteq> NaN"
  by (cases a; cases b) auto

lemma prioritySorted_placed:
  "prioritySorted xs \<Longrightarrow> prioritySorted (placed d xs)"
proof (induction xs)
  case Nil
  then show ?case by (simp add: placed_Nil prioritySorted_def)
next
  case (Cons x xs)
  from Cons.prems have tl: "prioritySorted xs"
    by (auto simp: prioritySorted_def split: if_splits)
  show ?case
  proof (cases "lessEq (priority x) (priority d)")
    case True
    then have nn: "priority x \<noteq> NaN" "priority d \<noteq> NaN"
      using lessEq_NaN by blast+
    have "lessEq (priority y) (priority d)"
      if "y \<in> set xs" "priority y \<noteq> NaN" for y
    proof -
      have "lessEq (priority y) (priority x)"
        using Cons.prems nn(1) that by (simp add: prioritySorted_def)
      then show ?thesis using True by (rule lessEq_trans)
    qed
    with True nn Cons.prems show ?thesis
      by (simp add: placed_Cons prioritySorted_def)
  next
    case False
    show ?thesis
    proof (cases "priority x = NaN")
      case True
      with False Cons.IH [OF tl] show ?thesis
        by (simp add: placed_Cons prioritySorted_def)
    next
      case nx: False
      have "lessEq (priority y) (priority x)"
        if "y \<in> set (placed d xs)" "priority y \<noteq> NaN" for y
      proof (cases "y = d")
        case True
        with False nx that(2) lessEq_total [of "priority d" "priority x"] show ?thesis
          by auto
      next
        case ny: False
        with that have "y \<in> set xs" by (simp add: set_placed)
        with Cons.prems nx that(2) show ?thesis by (simp add: prioritySorted_def)
      qed
      with False nx Cons.IH [OF tl] show ?thesis
        by (simp add: placed_Cons prioritySorted_def)
    qed
  qed
qed

lemma placed_nth:
  "placed d xs ! length (takeWhile (\<lambda>e. \<not> lessEq (priority e) (priority d)) xs) = d"
  by (simp add: placed_def nth_append)

lemma prioritySorted_remove:
  "prioritySorted (pre @ d # post) \<Longrightarrow> prioritySorted (pre @ post)"
  by (auto simp: prioritySorted_def sorted_wrt_append split: if_splits)

lemma prioritySorted_tl:
  "prioritySorted xs \<Longrightarrow> prioritySorted (tl xs)"
  by (cases xs) (auto simp: prioritySorted_def split: if_splits)

subsection \<open>The operations, unfolded\<close>

lemma isDialogOpen_iff: "isDialogOpen k st = (k \<in> key ` set (dialogStack st))"
  by (auto simp: isDialogOpen_def list_ex_iff)

lemma isDialogOpen_findIndex:
  "isDialogOpen k st = (findIndex (\<lambda>d. key d = k) (dialogStack st) \<noteq> - 1)"
  by (auto simp: isDialogOpen_iff findIndex_none)

lemma insertDialogByPriority_eq:
  "insertDialogByPriority d st = st\<lparr>dialogStack := placed d (dialogStack st)\<rparr>"
  by (simp add: insertDialogByPriority_def splice_insert_placed)

lemma riseDialog_absent: "\<not> isDialogOpen k st \<Longrightarrow> riseDialog k st = st"
  by (simp add: riseDialog_def isDialogOpen_findIndex)

lemma riseDialog_found:
  assumes "dialogStack st = pre @ d # post" "key d = k" "\<forall>e\<in>set pre. key e \<noteq> k"
  shows "riseDialog k st =
    updateCloseOnEscapeStates (st\<lparr>dialogStack := placed d (pre @ post), activeKey := Some k\<rparr>)"
proof -
  have "findIndex (\<lambda>d. key d = k) (dialogStack st) = int (length pre)"
    using assms by (simp add: findIndex_first)
  then show ?thesis
    using assms(1)
    by (simp add: riseDialog_def Let_def insertDialogByPriority_eq splice_remove)
qed

lemma risePosition_found:
  assumes "dialogStack st = pre @ d # post" "key d = k" "\<forall>e\<in>set pre. key e \<noteq> k"
  shows "risePosition k st = length (takeWhile (\<lambda>e. \<not> lessEq (priority e) (priority d)) (pre @ post))"
proof -
  have "findIndex (\<lambda>d. key d = k) (dialogStack st) = int (length pre)"
    using assms by (simp add: findIndex_first)
  then show ?thesis
    using assms(1)
    by (simp add: risePosition_def Let_def splice_remove insertPosition_takeWhile)
qed

lemma closeDialog_absent:
  assumes "findIndex (case options of Some k \<Rightarrow> (\<lambda>d. key d = k)
             | None \<Rightarrow> (\<lambda>d. Some (key d) = activeKey st)) (dialogStack st) = - 1"
  shows "closeDialog options st = st"
  using assms by (cases options) (simp_all add: closeDialog_def)

lemma closeDialog_found:
  assumes "dialogStack st = pre @ d # post" "P d" "\<forall>e\<in>set pre. \<not> P e"
    and "P = (case options of Some k \<Rightarrow> (\<lambda>d. key d = k)
             | None \<Rightarrow> (\<lambda>d. Some (key d) = activeKey st))"
  shows "closeDialog options st =
    updateCloseOnEscapeStates
      (st\<lparr>dialogStack := pre @ post,
          onCloseCalls := (case onClose (dialogComponentProps d) of
                             Some cb \<Rightarrow> onCloseCalls st @ [cb] | None \<Rightarrow> onCloseCalls st),
          activeKey := (if pre @ post = [] then None else Some (key (last (pre @ post))))\<rparr>)"
proof -
  have i: "findIndex P (dialogStack st) = int (length pre)"
    using assms(1-3) by (simp add: findIndex_first)
  have l: "(pre @ post) ! (length (pre @ post) - 1) = last (pre @ post)" if "pre @ post \<noteq> []"
    using that by (simp add: last_conv_nth)
  show ?thesis
  proof (cases options)
    case None
    with i assms(4) have "findIndex (\<lambda>d. Some (key d) = activeKey st) (dialogStack st) = int (length pre)"
      by simp
    with None assms(1) l show ?thesis
      by (auto simp: closeDialog_def Let_def splice_remove)
  next
    case (Some k)
    with i assms(4) have "findIndex (\<lambda>d. key d = k) (dialogStack st) = int (length pre)"
      by simp
    with Some assms(1) l show ?thesis
      by (auto simp: closeDialog_def Let_def splice_remove)
  qed
qed

lemma createDialog_state:
  "snd (createDialog k options st) =
    updateCloseOnEscapeStates
      (st\<lparr>dialogStack := placed (newDialog k options)
             (if 10 \<le> length (dialogStack st) then tl (dialogStack st) else dialogStack st),
          activeKey := Some k\<rparr>)"
  by (simp add: createDialog_def Let_def insertDialogByPriority_eq shift_js_def drop_Suc)

lemma createDialog_result:
  "fst (createDialog k options st) =
    dialogStack (snd (createDialog k options st)) !
      length (takeWhile (\<lambda>e. \<not> lessEq (priority e) (priority (newDialog k options)))
        (if 10 \<le> length (dialogStack st) then tl (dialogStack st) else dialogStack st))"
  by (simp add: createDialog_def Let_def insertDialogByPriority_eq shift_js_def drop_Suc
      insertPosition_takeWhile)

subsection \<open>Keeping the invariant\<close>

lemma update_keys:
  "map key (dialogStack (updateCloseOnEscapeStates st)) = map key (dialogStack st)"
  by (rule nth_equalityI) (simp_all add: update_nth)

lemma update_priorities:
  "map priority (dialogStack (updateCloseOnEscapeStates st)) = map priority (dialogStack st)"
  by (rule nth_equalityI) (simp_all add: update_nth)

lemma update_key_set:
  "key ` set (dialogStack (updateCloseOnEscapeStates st)) = key ` set (dialogStack st)"
  using update_keys [of st] by (metis set_map)

lemma prioritySorted_map:
  "prioritySorted xs = sorted_wrt (\<lambda>p q. lessEq q p) (filter (\<lambda>p. p \<noteq> NaN) (map priority xs))"
  by (simp add: prioritySorted_def sorted_wrt_map filter_map comp_def)

lemma update_sorted:
  "prioritySorted (dialogStack (updateCloseOnEscapeStates st)) = prioritySorted (dialogStack st)"
  by (simp add: prioritySorted_map update_priorities)

lemma update_empty:
  "(dialogStack (updateCloseOnEscapeStates st) = []) = (dialogStack st = [])"
  using update_length [of st] by (metis length_0_conv)

lemma invariant_update:
  assumes "distinct (map key (dialogStack st))" "[] \<notin> key ` set (dialogStack st)"
    "prioritySorted (dialogStack st)" "length (dialogStack st) \<le> 10" "activeKeyLive st"
  shows "invariant (updateCloseOnEscapeStates st)"
proof -
  have "escapeFlagsSet (updateCloseOnEscapeStates st)"
    unfolding escapeFlagsSet_def using assms(1) update_escape [of st] by simp
  moreover have "activeKeyLive (updateCloseOnEscapeStates st)"
    using assms(5) unfolding activeKeyLive_def update_empty update_key_set by simp
  moreover have "distinct (map key (dialogStack (updateCloseOnEscapeStates st)))"
    unfolding update_keys using assms(1) by simp
  moreover have "[] \<notin> key ` set (dialogStack (updateCloseOnEscapeStates st))"
    unfolding update_key_set using assms(2) by simp
  moreover have "prioritySorted (dialogStack (updateCloseOnEscapeStates st))"
    unfolding update_sorted using assms(3) by simp
  ultimately show ?thesis
    unfolding invariant_def using assms(4) by simp
qed

lemma invariant_initial: "invariant initial"
  by (simp add: invariant_def initial_def prioritySorted_def activeKeyLive_def escapeFlagsSet_def)

lemma invariant_rise:
  assumes "invariant st"
  shows "invariant (riseDialog k st)"
proof (cases "isDialogOpen k st")
  case False
  with assms show ?thesis by (simp add: riseDialog_absent)
next
  case True
  then obtain pre d post where s: "dialogStack st = pre @ d # post" "key d = k"
    "\<forall>e\<in>set pre. key e \<noteq> k"
    using findIndex_split [of "\<lambda>d. key d = k" "dialogStack st"]
    by (auto simp: isDialogOpen_findIndex)
  have inv: "distinct (map key (pre @ d # post))" "[] \<notin> key ` set (pre @ d # post)"
    "prioritySorted (pre @ d # post)" "length (pre @ d # post) \<le> 10"
    using assms s(1) by (simp_all add: invariant_def)
  have "distinct (map key (placed d (pre @ post)))"
    using inv(1) by (auto simp: distinct_keys_placed)
  moreover have "[] \<notin> key ` set (placed d (pre @ post))"
    using inv(2) by (auto simp: set_placed)
  moreover have "prioritySorted (placed d (pre @ post))"
    using inv(3) by (intro prioritySorted_placed) (rule prioritySorted_remove)
  moreover have "length (placed d (pre @ post)) \<le> 10"
    using inv(4) by (simp add: length_placed)
  moreover have "activeKeyLive (st\<lparr>dialogStack := placed d (pre @ post), activeKey := Some k\<rparr>)"
    using s(2) by (auto simp: activeKeyLive_def set_placed placed_def)
  ultimately show ?thesis
    unfolding riseDialog_found [OF s] by (intro invariant_update) simp_all
qed

lemma invariant_close:
  assumes "invariant st"
  shows "invariant (closeDialog options st)"
proof -
  define P where "P = (case options of Some k \<Rightarrow> (\<lambda>d. key d = k)
             | None \<Rightarrow> (\<lambda>d::'a DialogInstance. Some (key d) = activeKey st))"
  show ?thesis
  proof (cases "findIndex P (dialogStack st) = - 1")
    case True
    with assms show ?thesis by (simp add: closeDialog_absent P_def)
  next
    case False
    then obtain pre d post where s: "dialogStack st = pre @ d # post" "P d" "\<forall>e\<in>set pre. \<not> P e"
      using findIndex_split [of P "dialogStack st"] by blast
    have inv: "distinct (map key (pre @ d # post))" "[] \<notin> key ` set (pre @ d # post)"
      "prioritySorted (pre @ d # post)" "length (pre @ d # post) \<le> 10"
      using assms s(1) by (simp_all add: invariant_def)
    have "distinct (map key (pre @ post))"
      using inv(1) by auto
    moreover have "[] \<notin> key ` set (pre @ post)"
      using inv(2) by auto
    moreover have "prioritySorted (pre @ post)"
      using inv(3) by (rule prioritySorted_remove)
    moreover have "length (pre @ post) \<le> 10"
      using inv(4) by simp
    moreover have "activeKeyLive (st\<lparr>dialogStack := pre @ post,
          onCloseCalls := (case onClose (dialogComponentProps d) of
                             Some cb \<Rightarrow> onCloseCalls st @ [cb] | None \<Rightarrow> onCloseCalls st),
          activeKey := (if pre @ post = [] then None else Some (key (last (pre @ post))))\<rparr>)"
      using last_in_set [of "pre @ post"]
      by (simp add: activeKeyLive_def del: last_in_set last_append)
    ultimately have "invariant (updateCloseOnEscapeStates
      (st\<lparr>dialogStack := pre @ post,
          onCloseCalls := (case onClose (dialogComponentProps d) of
                             Some cb \<Rightarrow> onCloseCalls st @ [cb] | None \<Rightarrow> onCloseCalls st),
          activeKey := (if pre @ post = [] then None else Some (key (last (pre @ post))))\<rparr>))"
      by (intro invariant_update) simp_all
    then show ?thesis
      using closeDialog_found [OF s P_def] by simp
  qed
qed

lemma newDialog_key: "key (newDialog k options) = k"
  by (simp add: newDialog_def Let_def)

lemma newDialog_priority:
  "priority (newDialog k options) = (case opt_priority options of None \<Rightarrow> Num 1 | Some p \<Rightarrow> p)"
  by (simp add: newDialog_def Let_def)

lemma invariant_create:
  assumes "invariant st" "k \<noteq> []" "\<not> isDialogOpen k st"
  shows "invariant (snd (createDialog k options st))"
proof -
  define xs where "xs = (if 10 \<le> length (dialogStack st) then tl (dialogStack st) else dialogStack st)"
  have sub: "set xs \<subseteq> set (dialogStack st)"
    by (cases "dialogStack st") (auto simp: xs_def)
  have inv: "distinct (map key (dialogStack st))" "[] \<notin> key ` set (dialogStack st)"
    "prioritySorted (dialogStack st)" "length (dialogStack st) \<le> 10"
    using assms(1) by (simp_all add: invariant_def)
  have k: "key (newDialog k options) = k"
    by (rule newDialog_key)
  have "distinct (map key xs)"
    using inv(1) by (simp add: xs_def distinct_tl map_tl)
  moreover have "k \<notin> key ` set xs"
    using assms(3) sub by (auto simp: isDialogOpen_iff)
  ultimately have "distinct (map key (placed (newDialog k options) xs))"
    by (simp add: distinct_keys_placed k)
  moreover have "[] \<notin> key ` set (placed (newDialog k options) xs)"
    using inv(2) sub assms(2) by (auto simp: set_placed k)
  moreover have "prioritySorted xs"
    using inv(3) by (simp add: xs_def prioritySorted_tl)
  then have "prioritySorted (placed (newDialog k options) xs)"
    by (rule prioritySorted_placed)
  moreover have "length (placed (newDialog k options) xs) \<le> 10"
    using inv(4) by (auto simp: length_placed xs_def)
  moreover have "activeKeyLive
    (st\<lparr>dialogStack := placed (newDialog k options) xs, activeKey := Some k\<rparr>)"
    using k by (auto simp: activeKeyLive_def set_placed placed_def)
  ultimately show ?thesis
    unfolding createDialog_state xs_def [symmetric] by (intro invariant_update) simp_all
qed

subsection \<open>Showing a dialog\<close>

lemma genDialogKey_nonempty: "genDialogKey rnd36 \<noteq> []"
  by (simp add: genDialogKey_def)

lemma showDialog_cases:
  assumes "dk = (case opt_key options of
               Some k \<Rightarrow> if k \<noteq> [] then k else genDialogKey rnd36
             | None \<Rightarrow> genDialogKey rnd36)"
  shows "showDialog options rnd36 st =
    (if isDialogOpen dk st then reshow dk st else createDialog dk options st)"
  unfolding showDialog_def reshow_def isDialogOpen_findIndex assms [symmetric] Let_def
  by simp

lemma showExtensionDialog_cases:
  assumes "opt_key options = Some k" "k \<noteq> []"
    and "ek = (if startsWith k ''extension-'' then k else ''extension-'' @ k)"
  shows "showExtensionDialog options st =
    (if isDialogOpen ek st then (Some (fst (reshow ek st)), snd (reshow ek st))
     else (Some (fst (createDialog ek options st)), snd (createDialog ek options st)))"
  unfolding showExtensionDialog_def reshow_def isDialogOpen_findIndex Let_def
  using assms by (simp add: split_beta)

lemma showExtensionDialog_nokey:
  "opt_key options = None \<or> opt_key options = Some [] \<Longrightarrow>
    showExtensionDialog options st = (None, st)"
  by (auto simp: showExtensionDialog_def)

lemma reshow_state:
  assumes "dialogStack st = pre @ d # post" "key d = k" "\<forall>e\<in>set pre. key e \<noteq> k"
  shows "snd (reshow k st) =
    updateCloseOnEscapeStates
      (st\<lparr>dialogStack := placed (d\<lparr>visible := True\<rparr>) (pre @ post), activeKey := Some k\<rparr>)"
proof -
  have i: "findIndex (\<lambda>d. key d = k) (dialogStack st) = int (length pre)"
    using assms by (simp add: findIndex_first)
  define st1 where "st1 = st\<lparr>dialogStack := pre @ d\<lparr>visible := True\<rparr> # post\<rparr>"
  have "riseDialog k st1 =
    updateCloseOnEscapeStates
      (st1\<lparr>dialogStack := placed (d\<lparr>visible := True\<rparr>) (pre @ post), activeKey := Some k\<rparr>)"
    using assms(2,3) by (intro riseDialog_found) (simp_all add: st1_def)
  then show ?thesis
    using i assms(1) by (simp add: reshow_def Let_def st1_def)
qed

lemma reshow_result:
  assumes "dialogStack st = pre @ d # post" "key d = k" "\<forall>e\<in>set pre. key e \<noteq> k"
  shows "fst (reshow k st) =
    dialogStack (snd (reshow k st)) ! length (takeWhile (\<lambda>e. \<not> lessEq (priority e) (priority d)) (pre @ post))"
proof -
  have i: "findIndex (\<lambda>d. key d = k) (dialogStack st) = int (length pre)"
    using assms by (simp add: findIndex_first)
  define st1 where "st1 = st\<lparr>dialogStack := pre @ d\<lparr>visible := True\<rparr> # post\<rparr>"
  have "risePosition k st1 =
    length (takeWhile (\<lambda>e. \<not> lessEq (priority e) (priority (d\<lparr>visible := True\<rparr>))) (pre @ post))"
    using assms(2,3) by (intro risePosition_found) (simp_all add: st1_def)
  then show ?thesis
    using i assms(1) by (simp add: reshow_def Let_def st1_def)
qed

lemma invariant_reshow:
  assumes "invariant st" "isDialogOpen k st"
  shows "invariant (snd (reshow k st))"
proof -
  obtain pre d post where s: "dialogStack st = pre @ d # post" "key d = k"
    "\<forall>e\<in>set pre. key e \<noteq> k"
    using assms(2) findIndex_split [of "\<lambda>d. key d = k" "dialogStack st"]
    by (auto simp: isDialogOpen_findIndex)
  let ?d = "d\<lparr>visible := True\<rparr>"
  have inv: "distinct (map key (pre @ d # post))" "[] \<notin> key ` set (pre @ d # post)"
    "prioritySorted (pre @ d # post)" "length (pre @ d # post) \<le> 10"
    using assms s(1) by (simp_all add: invariant_def)
  have "distinct (map key (placed ?d (pre @ post)))"
    using inv(1) by (auto simp: distinct_keys_placed)
  moreover have "[] \<notin> key ` set (placed ?d (pre @ post))"
    using inv(2) by (auto simp: set_placed)
  moreover have "prioritySorted (pre @ post)"
    using inv(3) by (rule prioritySorted_remove)
  then have "prioritySorted (placed ?d (pre @ post))"
    by (rule prioritySorted_placed)
  moreover have "length (placed ?d (pre @ post)) \<le> 10"
    using inv(4) by (simp add: length_placed)
  moreover have "activeKeyLive (st\<lparr>dialogStack := placed ?d (pre @ post), activeKey := Some k\<rparr>)"
    using s(2) by (auto simp: activeKeyLive_def set_placed placed_def)
  ultimately show ?thesis
    unfolding reshow_state [OF s] by (intro invariant_update) simp_all
qed

lemma invariant_perform:
  assumes "invariant st"
  shows "invariant (perform op st)"
proof (cases op)
  case (Show options rnd36)
  define dk where "dk = (case opt_key options of
               Some k \<Rightarrow> if k \<noteq> [] then k else genDialogKey rnd36
             | None \<Rightarrow> genDialogKey rnd36)"
  have "dk \<noteq> []"
    by (auto simp: dk_def genDialogKey_nonempty split: option.splits)
  then show ?thesis
    using assms Show showDialog_cases [OF dk_def, of st]
    by (simp add: invariant_reshow invariant_create)
next
  case (ShowExtension options)
  show ?thesis
  proof (cases "opt_key options = None \<or> opt_key options = Some []")
    case True
    with assms ShowExtension show ?thesis by (simp add: showExtensionDialog_nokey)
  next
    case False
    then obtain k where k: "opt_key options = Some k" "k \<noteq> []" by auto
    define ek where "ek = (if startsWith k ''extension-'' then k else ''extension-'' @ k)"
    have "ek \<noteq> []" using k(2) by (simp add: ek_def)
    then show ?thesis
      using assms ShowExtension showExtensionDialog_cases [OF k ek_def, of st]
      by (simp add: invariant_reshow invariant_create)
  qed
next
  case (Rise k)
  with assms show ?thesis by (simp add: invariant_rise)
next
  case (Close options)
  with assms show ?thesis by (simp add: invariant_close)
qed

lemma reachable_invariant: "reachable st \<Longrightarrow> invariant st"
  by (induction rule: reachable.induct) (simp_all add: invariant_initial invariant_perform)

lemma reachable_fold: "reachable st \<Longrightarrow> reachable (fold perform ops st)"
  by (induction ops arbitrary: st) (simp_all add: reachable_perform)

lemma reachable_run: "reachable (run ops)"
  unfolding run_def by (rule reachable_fold) (rule reachable_initial)

subsection \<open>What a second show of an open key leaves alone\<close>

lemma update_forget_nth:
  "i < length (dialogStack st) \<Longrightarrow>
    forgetEscape (dialogStack (updateCloseOnEscapeStates st) ! i) = forgetEscape (dialogStack st ! i)"
  by (simp add: update_nth forgetEscape_def)

lemma props_forget_eq:
  fixes p q :: "'a DialogComponentProps"
  shows "(p\<lparr>closeOnEscape := None\<rparr> = q\<lparr>closeOnEscape := None\<rparr>) =
    (p = q\<lparr>closeOnEscape := closeOnEscape p\<rparr>)"
  by (cases p, cases q) auto

lemma forgetEscape_eq:
  "(forgetEscape a = forgetEscape b) =
    (a = b\<lparr>dialogComponentProps :=
             (dialogComponentProps b)\<lparr>closeOnEscape := closeOnEscape (dialogComponentProps a)\<rparr>\<rparr>)"
  by (cases a, cases b) (auto simp: forgetEscape_def props_forget_eq)

lemma forgetEscape_fields:
  "key (forgetEscape d) = key d" "priority (forgetEscape d) = priority d"
  "visible (forgetEscape d) = visible d"
  by (simp_all add: forgetEscape_def)

lemma key_of_forget: "forgetEscape a = forgetEscape b \<Longrightarrow> key a = key b"
  by (metis forgetEscape_fields(1))

lemma keys_of_forget:
  "map forgetEscape xs = map forgetEscape ys \<Longrightarrow> map key xs = map key ys"
proof -
  assume "map forgetEscape xs = map forgetEscape ys"
  then have "map key (map forgetEscape xs) = map key (map forgetEscape ys)" by simp
  then show ?thesis by (simp add: forgetEscape_fields comp_def)
qed

lemma find_first:
  "P d \<Longrightarrow> \<forall>e\<in>set pre. \<not> P e \<Longrightarrow> find P (pre @ d # post) = Some d"
  by (induction pre) auto

lemma reshow_facts:
  assumes "dialogStack st = pre @ d # post" "key d = k" "\<forall>e\<in>set pre. key e \<noteq> k"
  shows "forgetEscape (fst (reshow k st)) = forgetEscape (d\<lparr>visible := True\<rparr>)"
    and "fst (reshow k st) \<in> set (dialogStack (snd (reshow k st)))"
    and "map forgetEscape (dialogStack (snd (reshow k st))) =
          map forgetEscape (placed (d\<lparr>visible := True\<rparr>) (pre @ post))"
    and "activeKey (snd (reshow k st)) = Some k"
    and "onCloseCalls (snd (reshow k st)) = onCloseCalls st"
proof -
  let ?d = "d\<lparr>visible := True\<rparr>"
  let ?pos = "length (takeWhile (\<lambda>e. \<not> lessEq (priority e) (priority d)) (pre @ post))"
  let ?st3 = "st\<lparr>dialogStack := placed ?d (pre @ post), activeKey := Some k\<rparr>"
  have st: "snd (reshow k st) = updateCloseOnEscapeStates ?st3"
    using assms by (rule reshow_state)
  have res: "fst (reshow k st) = dialogStack (snd (reshow k st)) ! ?pos"
    using assms by (rule reshow_result)
  have pos: "?pos < length (dialogStack ?st3)"
    using length_takeWhile_le [of "\<lambda>e. \<not> lessEq (priority e) (priority d)" "pre @ post"]
    by (simp add: length_placed del: length_append)
  have at: "dialogStack ?st3 ! ?pos = ?d"
    using placed_nth [of ?d "pre @ post"] by simp
  show "forgetEscape (fst (reshow k st)) = forgetEscape ?d"
    unfolding res st using update_forget_nth [OF pos] at by simp
  show "fst (reshow k st) \<in> set (dialogStack (snd (reshow k st)))"
    unfolding res st using pos by (intro nth_mem) simp
  show "map forgetEscape (dialogStack (snd (reshow k st))) = map forgetEscape (placed ?d (pre @ post))"
    unfolding st update_forget by simp
  show "activeKey (snd (reshow k st)) = Some k"
    unfolding st by simp
  show "onCloseCalls (snd (reshow k st)) = onCloseCalls st"
    unfolding st by simp
qed

lemma createDialog_facts:
  shows "forgetEscape (fst (createDialog k options st)) = forgetEscape (newDialog k options)"
    and "fst (createDialog k options st) \<in> set (dialogStack (snd (createDialog k options st)))"
    and "map forgetEscape (dialogStack (snd (createDialog k options st))) =
          map forgetEscape (placed (newDialog k options)
            (if 10 \<le> length (dialogStack st) then tl (dialogStack st) else dialogStack st))"
    and "activeKey (snd (createDialog k options st)) = Some k"
    and "onCloseCalls (snd (createDialog k options st)) = onCloseCalls st"
proof -
  define xs where "xs = (if 10 \<le> length (dialogStack st) then tl (dialogStack st) else dialogStack st)"
  let ?d = "newDialog k options"
  let ?pos = "length (takeWhile (\<lambda>e. \<not> lessEq (priority e) (priority ?d)) xs)"
  let ?st3 = "st\<lparr>dialogStack := placed ?d xs, activeKey := Some k\<rparr>"
  have st: "snd (createDialog k options st) = updateCloseOnEscapeStates ?st3"
    unfolding xs_def by (rule createDialog_state)
  have res: "fst (createDialog k options st) = dialogStack (snd (createDialog k options st)) ! ?pos"
    unfolding xs_def by (rule createDialog_result)
  have pos: "?pos < length (dialogStack ?st3)"
    using length_takeWhile_le [of "\<lambda>e. \<not> lessEq (priority e) (priority ?d)" xs]
    by (simp add: length_placed)
  have at: "dialogStack ?st3 ! ?pos = ?d"
    using placed_nth [of ?d xs] by simp
  show "forgetEscape (fst (createDialog k options st)) = forgetEscape ?d"
    unfolding res st using update_forget_nth [OF pos] at by simp
  show "fst (createDialog k options st) \<in> set (dialogStack (snd (createDialog k options st)))"
    unfolding res st using pos by (intro nth_mem) simp
  show "map forgetEscape (dialogStack (snd (createDialog k options st))) =
          map forgetEscape (placed (newDialog k options)
            (if 10 \<le> length (dialogStack st) then tl (dialogStack st) else dialogStack st))"
    unfolding st update_forget xs_def by simp
  show "activeKey (snd (createDialog k options st)) = Some k"
    unfolding st by simp
  show "onCloseCalls (snd (createDialog k options st)) = onCloseCalls st"
    unfolding st by simp
qed

lemma startsWith_prefix: "startsWith s p = prefix p s"
  unfolding startsWith_def by (metis prefix_def append_take_drop_id append_eq_conv_conj)

subsection \<open>Consequences of the invariant\<close>

lemma escapable_le_one:
  assumes "distinct (map key xs)" "\<forall>d\<in>set xs. escapable d \<longrightarrow> Some (key d) = ak"
  shows "length (filter escapable xs) \<le> 1"
proof (rule ccontr)
  assume "\<not> length (filter escapable xs) \<le> 1"
  then obtain a b zs where ys: "filter escapable xs = a # b # zs"
    by (cases "filter escapable xs"; cases "tl (filter escapable xs)") auto
  have "distinct (map key (filter escapable xs))"
    using assms(1) by (rule distinct_map_filter)
  then have "key a \<noteq> key b" using ys by simp
  moreover have "a \<in> set (filter escapable xs)" "b \<in> set (filter escapable xs)"
    using ys by simp_all
  then have "Some (key a) = ak" "Some (key b) = ak"
    using assms(2) by auto
  ultimately show False by auto
qed

lemma create_at_capacity:
  assumes "invariant st" "length (dialogStack st) = 10" "\<not> isDialogOpen k st"
  shows "length (dialogStack (snd (createDialog k options st))) = 10"
    and "key (newDialog k options) \<notin> key ` set (dialogStack st)"
    and "map forgetEscape (dialogStack (snd (createDialog k options st))) =
          map forgetEscape (placed (newDialog k options) (tl (dialogStack st)))"
    and "\<not> isDialogOpen (key (hd (dialogStack st))) (snd (createDialog k options st))"
    and "onCloseCalls (snd (createDialog k options st)) = onCloseCalls st"
proof -
  let ?st' = "snd (createDialog k options st)"
  obtain x xs where xs: "dialogStack st = x # xs"
    using assms(2) by (cases "dialogStack st") auto
  show f: "map forgetEscape (dialogStack ?st') =
          map forgetEscape (placed (newDialog k options) (tl (dialogStack st)))"
    using createDialog_facts(3) [of k options st] assms(2) by simp
  from f have "length (map forgetEscape (dialogStack ?st')) =
      length (map forgetEscape (placed (newDialog k options) (tl (dialogStack st))))"
    by simp
  then show "length (dialogStack ?st') = 10"
    using assms(2) by (simp add: length_placed)
  show "key (newDialog k options) \<notin> key ` set (dialogStack st)"
    using assms(3) by (simp add: newDialog_key isDialogOpen_iff)
  have "map key (dialogStack ?st') = map key (placed (newDialog k options) (tl (dialogStack st)))"
    using f by (rule keys_of_forget)
  then have "set (map key (dialogStack ?st')) =
      set (map key (placed (newDialog k options) (tl (dialogStack st))))"
    by simp
  then have "key ` set (dialogStack ?st') = insert k (key ` set xs)"
    using xs by (simp add: set_placed newDialog_key)
  moreover have "key x \<noteq> k"
    using assms(3) xs by (auto simp: isDialogOpen_iff)
  moreover have "key x \<notin> key ` set xs"
    using assms(1) xs by (auto simp: invariant_def)
  ultimately show "\<not> isDialogOpen (key (hd (dialogStack st))) ?st'"
    using xs by (simp add: isDialogOpen_iff)
  show "onCloseCalls ?st' = onCloseCalls st"
    by (rule createDialog_facts(5))
qed

lemma reachable_twoDialogs: "reachable twoDialogs"
  unfolding twoDialogs_def by (rule reachable_run)

lemma reachable_tenDialogs: "reachable tenDialogs"
  unfolding tenDialogs_def by (rule reachable_run)

lemma mset_map_placed: "mset (map f (placed d xs)) = add_mset (f d) (mset (map f xs))"
  by (simp add: mset_placed)

lemma reshow_open:
  assumes "isDialogOpen k st"
  shows "\<exists>d. find (\<lambda>d. key d = k) (dialogStack st) = Some d
    \<and> forgetEscape (fst (reshow k st)) = forgetEscape (d\<lparr>visible := True\<rparr>)
    \<and> fst (reshow k st) \<in> set (dialogStack (snd (reshow k st)))
    \<and> mset (map forgetEscape (dialogStack (snd (reshow k st)))) =
        add_mset (forgetEscape (d\<lparr>visible := True\<rparr>))
          (mset (map forgetEscape (remove1 d (dialogStack st))))
    \<and> mset (map key (dialogStack (snd (reshow k st)))) = mset (map key (dialogStack st))
    \<and> activeKey (snd (reshow k st)) = Some k
    \<and> onCloseCalls (snd (reshow k st)) = onCloseCalls st"
proof -
  obtain pre d post where s: "dialogStack st = pre @ d # post" "key d = k"
    "\<forall>e\<in>set pre. key e \<noteq> k"
    using assms findIndex_split [of "\<lambda>d. key d = k" "dialogStack st"]
    by (auto simp: isDialogOpen_findIndex)
  let ?d = "d\<lparr>visible := True\<rparr>"
  note f = reshow_facts [OF s]
  have "find (\<lambda>d. key d = k) (dialogStack st) = Some d"
    using s by (simp add: find_first)
  moreover have "d \<notin> set pre" using s(2,3) by auto
  then have rm: "remove1 d (dialogStack st) = pre @ post"
    using s(1) by (simp add: remove1_append)
  have "mset (map forgetEscape (dialogStack (snd (reshow k st)))) =
      mset (map forgetEscape (placed ?d (pre @ post)))"
    using f(3) by simp
  then have "mset (map forgetEscape (dialogStack (snd (reshow k st)))) =
        add_mset (forgetEscape ?d) (mset (map forgetEscape (remove1 d (dialogStack st))))"
    unfolding rm by (simp only: mset_map_placed)
  moreover have "map key (dialogStack (snd (reshow k st))) = map key (placed ?d (pre @ post))"
    using f(3) by (rule keys_of_forget)
  then have "mset (map key (dialogStack (snd (reshow k st)))) =
      mset (map key (placed ?d (pre @ post)))"
    by simp
  then have "mset (map key (dialogStack (snd (reshow k st)))) = mset (map key (dialogStack st))"
    unfolding s(1) by (simp add: mset_placed)
  ultimately show ?thesis
    using f(1,2,4,5) by blast
qed

lemma open_key_nonempty:
  assumes "isDialogOpen k st" "k \<noteq> [] \<or> reachable st"
  shows "k \<noteq> []"
proof -
  have "k \<noteq> []" if "reachable st"
  proof -
    have "[] \<notin> key ` set (dialogStack st)"
      using that reachable_invariant by (auto simp: invariant_def)
    with assms(1) show ?thesis by (force simp: isDialogOpen_iff)
  qed
  with assms(2) show ?thesis by blast
qed

lemma showDialog_open:
  assumes "isDialogOpen k st" "k \<noteq> [] \<or> reachable st" "opt_key options = Some k"
  shows "showDialog options rnd36 st = reshow k st"
proof -
  have "k \<noteq> []" using assms(1,2) by (rule open_key_nonempty)
  then have "k = (case opt_key options of
               Some k \<Rightarrow> if k \<noteq> [] then k else genDialogKey rnd36
             | None \<Rightarrow> genDialogKey rnd36)"
    using assms(3) by simp
  from showDialog_cases [OF this, of st] assms(1) show ?thesis by simp
qed

lemma showExtensionDialog_open:
  assumes "opt_key options = Some x" "x \<noteq> []"
    and "k = (if prefix ''extension-'' x then x else ''extension-'' @ x)" "isDialogOpen k st"
  shows "showExtensionDialog options st = (Some (fst (reshow k st)), snd (reshow k st))"
proof -
  have "k = (if startsWith x ''extension-'' then x else ''extension-'' @ x)"
    using assms(3) by (simp add: startsWith_prefix)
  from showExtensionDialog_cases [OF assms(1,2) this, of st] assms(4) show ?thesis by simp
qed

lemma reshow_key: "isDialogOpen k st \<Longrightarrow> key (fst (reshow k st)) = k"
proof -
  assume "isDialogOpen k st"
  then obtain d where d: "find (\<lambda>d. key d = k) (dialogStack st) = Some d"
    "forgetEscape (fst (reshow k st)) = forgetEscape (d\<lparr>visible := True\<rparr>)"
    using reshow_open [of k st] by blast
  from d(1) have "key d = k" by (auto simp: find_Some_iff)
  with key_of_forget [OF d(2)] show ?thesis by simp
qed

lemma createDialog_key: "key (fst (createDialog k options st)) = k"
  using key_of_forget [OF createDialog_facts(1) [of k options st]] by (simp add: newDialog_key)

lemma showExtensionDialog_result:
  assumes "opt_key options = Some x" "x \<noteq> []"
    and "k = (if prefix ''extension-'' x then x else ''extension-'' @ x)"
  shows "map_option key (fst (showExtensionDialog options st)) = Some k"
    and "\<exists>d. fst (showExtensionDialog options st) = Some d
          \<and> d \<in> set (dialogStack (snd (showExtensionDialog options st)))"
    and "activeKey (snd (showExtensionDialog options st)) = Some k"
proof -
  have ek: "k = (if startsWith x ''extension-'' then x else ''extension-'' @ x)"
    using assms(3) by (simp add: startsWith_prefix)
  note c = showExtensionDialog_cases [OF assms(1,2) ek, of st]
  show "map_option key (fst (showExtensionDialog options st)) = Some k"
    unfolding c by (simp add: reshow_key createDialog_key)
  show "\<exists>d. fst (showExtensionDialog options st) = Some d
          \<and> d \<in> set (dialogStack (snd (showExtensionDialog options st)))"
  proof (cases "isDialogOpen k st")
    case True
    then show ?thesis
      unfolding c using reshow_open [OF True] by auto
  next
    case False
    then show ?thesis
      unfolding c using createDialog_facts(2) [of k options st] by simp
  qed
  show "activeKey (snd (showExtensionDialog options st)) = Some k"
  proof (cases "isDialogOpen k st")
    case True
    then show ?thesis
      unfolding c using reshow_open [OF True] by auto
  next
    case False
    then show ?thesis
      unfolding c using createDialog_facts(4) [of k options st] by simp
  qed
qed

lemma reachable_oneExtension: "reachable oneExtension"
  unfolding oneExtension_def by (rule reachable_run)

subsection \<open>Shows of new keys with the default priority\<close>

lemma priorities_of_forget:
  "map forgetEscape xs = map forgetEscape ys \<Longrightarrow> map priority xs = map priority ys"
proof -
  assume "map forgetEscape xs = map forgetEscape ys"
  then have "map priority (map forgetEscape xs) = map priority (map forgetEscape ys)" by simp
  then show ?thesis by (simp add: forgetEscape_fields comp_def)
qed

lemma placed_front:
  assumes "\<forall>e\<in>set xs. lessEq (priority e) (priority d)"
  shows "placed d xs = d # xs"
proof -
  have "takeWhile (\<lambda>e. \<not> lessEq (priority e) (priority d)) xs = []"
    using assms by (cases xs) auto
  moreover have "dropWhile (\<lambda>e. \<not> lessEq (priority e) (priority d)) xs = xs"
    using assms by (cases xs) auto
  ultimately show ?thesis by (simp add: placed_def)
qed

lemma show_default_front:
  assumes "\<forall>d\<in>set (dialogStack st). priority d = Num 1"
    and "opt_priority options = None" "opt_key options = Some k" "k \<noteq> []"
    and "\<not> isDialogOpen k st"
  shows "map key (dialogStack (perform (Show options rnd) st)) =
      k # map key (if 10 \<le> length (dialogStack st) then tl (dialogStack st) else dialogStack st)"
    and "\<forall>d\<in>set (dialogStack (perform (Show options rnd) st)). priority d = Num 1"
proof -
  define xs where "xs = (if 10 \<le> length (dialogStack st) then tl (dialogStack st) else dialogStack st)"
  have sub: "set xs \<subseteq> set (dialogStack st)"
    by (cases "dialogStack st") (auto simp: xs_def)
  have "k = (case opt_key options of
               Some k \<Rightarrow> if k \<noteq> [] then k else genDialogKey rnd
             | None \<Rightarrow> genDialogKey rnd)"
    using assms(3,4) by simp
  from showDialog_cases [OF this, of st] assms(5)
  have p: "perform (Show options rnd) st = snd (createDialog k options st)" by simp
  have one: "priority (newDialog k options) = Num 1"
    using assms(2) by (simp add: newDialog_priority)
  have "\<forall>e\<in>set xs. lessEq (priority e) (priority (newDialog k options))"
    using assms(1) sub one by auto
  then have front: "placed (newDialog k options) xs = newDialog k options # xs"
    by (rule placed_front)
  have f: "map forgetEscape (dialogStack (perform (Show options rnd) st)) =
      map forgetEscape (newDialog k options # xs)"
    unfolding p xs_def using createDialog_facts(3) [of k options st] front
    by (simp add: xs_def)
  from keys_of_forget [OF f]
  show "map key (dialogStack (perform (Show options rnd) st)) =
      k # map key (if 10 \<le> length (dialogStack st) then tl (dialogStack st) else dialogStack st)"
    by (simp add: newDialog_key xs_def)
  have "map priority (dialogStack (perform (Show options rnd) st)) = Num 1 # map priority xs"
    using priorities_of_forget [OF f] one by simp
  then have "set (map priority (dialogStack (perform (Show options rnd) st))) =
      insert (Num 1) (set (map priority xs))"
    by simp
  then have "priority ` set (dialogStack (perform (Show options rnd) st)) \<subseteq> {Num 1}"
    using assms(1) sub by auto
  then show "\<forall>d\<in>set (dialogStack (perform (Show options rnd) st)). priority d = Num 1"
    by auto
qed

lemma run_snoc: "run (ops @ [op]) = perform op (run ops)"
  by (simp add: run_def)

lemma shows_default_keys:
  assumes "length ks \<le> 10" "distinct ks" "[] \<notin> set ks"
    and "\<And>k. opt_key (options k) = Some k" "\<And>k. opt_priority (options k) = None"
  shows "map key (dialogStack (run (map (\<lambda>k. Show (options k) (rnd k)) ks))) = rev ks
    \<and> (\<forall>d\<in>set (dialogStack (run (map (\<lambda>k. Show (options k) (rnd k)) ks))). priority d = Num 1)"
  using assms(1-3)
proof (induction ks rule: rev_induct)
  case Nil
  then show ?case by (simp add: run_def initial_def)
next
  case (snoc k ks)
  let ?st = "run (map (\<lambda>k. Show (options k) (rnd k)) ks)"
  have ih: "map key (dialogStack ?st) = rev ks" "\<forall>d\<in>set (dialogStack ?st). priority d = Num 1"
    using snoc by simp_all
  have "length (map key (dialogStack ?st)) = length (rev ks)"
    using ih(1) by simp
  then have len: "length (dialogStack ?st) < 10"
    using snoc.prems(1) by simp
  have "set (map key (dialogStack ?st)) = set (rev ks)"
    using ih(1) by simp
  then have closed: "\<not> isDialogOpen k ?st"
    using snoc.prems(2) by (simp add: isDialogOpen_iff)
  have k: "k \<noteq> []" using snoc.prems(3) by auto
  note s = show_default_front [OF ih(2) assms(5) assms(4) k closed, of "rnd k"]
  have r: "run (map (\<lambda>k. Show (options k) (rnd k)) (ks @ [k])) =
      perform (Show (options k) (rnd k)) ?st"
    by (simp add: run_snoc)
  show ?case
    unfolding r using s len ih(1) by simp
qed

lemma eleventh_show_general:
  assumes "distinct (ks @ [k10, k11])" "[] \<notin> set (ks @ [k10, k11])" "length ks = 9"
    and "\<And>k. opt_key (options k) = Some k" "\<And>k. opt_priority (options k) = None"
  shows "map key (dialogStack (run (map (\<lambda>k. Show (options k) (rnd k)) (ks @ [k10, k11])))) =
      k11 # rev ks"
proof -
  let ?f = "\<lambda>k. Show (options k) (rnd k)"
  let ?st = "run (map ?f (ks @ [k10]))"
  have "length (ks @ [k10]) \<le> 10" "distinct (ks @ [k10])" "[] \<notin> set (ks @ [k10])"
    using assms(1-3) by auto
  from shows_default_keys [OF this assms(4,5), of rnd]
  have ten: "map key (dialogStack ?st) = rev (ks @ [k10])"
    "\<forall>d\<in>set (dialogStack ?st). priority d = Num 1"
    by blast+
  have "length (map key (dialogStack ?st)) = length (rev (ks @ [k10]))"
    using ten(1) by simp
  then have len: "length (dialogStack ?st) = 10"
    using assms(3) by simp
  have "set (map key (dialogStack ?st)) = set (rev (ks @ [k10]))"
    using ten(1) by simp
  then have closed: "\<not> isDialogOpen k11 ?st"
    using assms(1) by (auto simp: isDialogOpen_iff)
  have k: "k11 \<noteq> []" using assms(2) by auto
  note s = show_default_front(1) [OF ten(2) assms(5) assms(4) k closed, of "rnd k11"]
  have r: "run (map ?f (ks @ [k10, k11])) = perform (?f k11) ?st"
    using run_snoc [of "map ?f (ks @ [k10])" "?f k11"] by simp
  have "map key (tl (dialogStack ?st)) = tl (map key (dialogStack ?st))"
    by (simp add: map_tl)
  then have "map key (tl (dialogStack ?st)) = rev ks"
    using ten(1) by simp
  then show ?thesis
    unfolding r using s len by simp
qed

lemma eleventh_show_first_stays:
  assumes "distinct (ks @ [k10, k11])" "[] \<notin> set (ks @ [k10, k11])" "length ks = 9"
    and "\<And>k. opt_key (options k) = Some k" "\<And>k. opt_priority (options k) = None"
  shows "isDialogOpen (hd ks) (run (map (\<lambda>k. Show (options k) (rnd k)) (ks @ [k10, k11])))"
    and "\<not> isDialogOpen k10 (run (map (\<lambda>k. Show (options k) (rnd k)) (ks @ [k10, k11])))"
proof -
  let ?st = "run (map (\<lambda>k. Show (options k) (rnd k)) (ks @ [k10, k11]))"
  have "set (map key (dialogStack ?st)) = set (k11 # rev ks)"
    using eleventh_show_general [OF assms, of rnd] by simp
  then have keys: "key ` set (dialogStack ?st) = insert k11 (set ks)"
    by simp
  have "ks \<noteq> []" using assms(3) by auto
  then have "hd ks \<in> set ks" by simp
  with keys show "isDialogOpen (hd ks) ?st"
    by (simp add: isDialogOpen_iff)
  from keys assms(1) show "\<not> isDialogOpen k10 ?st"
    by (auto simp: isDialogOpen_iff)
qed

subsection \<open>Priorities other than NaN\<close>

lemma update_priority_set:
  "priority ` set (dialogStack (updateCloseOnEscapeStates st)) = priority ` set (dialogStack st)"
  using update_priorities [of st] by (metis set_map)

lemma noNaN_iff: "(\<forall>d\<in>set xs. priority d \<noteq> NaN) = (NaN \<notin> priority ` set xs)"
  by (induction xs) auto

lemma noNaN_rise:
  assumes "NaN \<notin> priority ` set (dialogStack st)"
  shows "NaN \<notin> priority ` set (dialogStack (riseDialog k st))"
proof (cases "isDialogOpen k st")
  case False
  with assms show ?thesis by (simp add: riseDialog_absent)
next
  case True
  then obtain pre d post where s: "dialogStack st = pre @ d # post" "key d = k"
    "\<forall>e\<in>set pre. key e \<noteq> k"
    using findIndex_split [of "\<lambda>d. key d = k" "dialogStack st"]
    by (auto simp: isDialogOpen_findIndex)
  have eq: "priority ` set (dialogStack (riseDialog k st)) = priority ` set (pre @ d # post)"
    unfolding riseDialog_found [OF s] update_priority_set by (auto simp: set_placed)
  show ?thesis
    unfolding eq using assms s(1) by simp
qed

lemma noNaN_close:
  assumes "NaN \<notin> priority ` set (dialogStack st)"
  shows "NaN \<notin> priority ` set (dialogStack (closeDialog options st))"
proof -
  define P where "P = (case options of Some k \<Rightarrow> (\<lambda>d. key d = k)
             | None \<Rightarrow> (\<lambda>d::'a DialogInstance. Some (key d) = activeKey st))"
  show ?thesis
  proof (cases "findIndex P (dialogStack st) = - 1")
    case True
    with assms show ?thesis by (simp add: closeDialog_absent P_def)
  next
    case False
    then obtain pre d post where s: "dialogStack st = pre @ d # post" "P d" "\<forall>e\<in>set pre. \<not> P e"
      using findIndex_split [of P "dialogStack st"] by blast
    have eq: "priority ` set (dialogStack (closeDialog options st)) = priority ` set (pre @ post)"
      unfolding closeDialog_found [OF s P_def] update_priority_set by simp
    show ?thesis
      unfolding eq using assms s(1) by auto
  qed
qed

lemma noNaN_reshow:
  assumes "NaN \<notin> priority ` set (dialogStack st)" "isDialogOpen k st"
  shows "NaN \<notin> priority ` set (dialogStack (snd (reshow k st)))"
proof -
  obtain pre d post where s: "dialogStack st = pre @ d # post" "key d = k"
    "\<forall>e\<in>set pre. key e \<noteq> k"
    using assms(2) findIndex_split [of "\<lambda>d. key d = k" "dialogStack st"]
    by (auto simp: isDialogOpen_findIndex)
  have eq: "priority ` set (dialogStack (snd (reshow k st))) = priority ` set (pre @ d # post)"
    unfolding reshow_state [OF s] update_priority_set by (auto simp: set_placed)
  show ?thesis
    unfolding eq using assms(1) s(1) by simp
qed

lemma noNaN_create:
  assumes "NaN \<notin> priority ` set (dialogStack st)" "opt_priority options \<noteq> Some NaN"
  shows "NaN \<notin> priority ` set (dialogStack (snd (createDialog k options st)))"
proof -
  define xs where "xs = (if 10 \<le> length (dialogStack st) then tl (dialogStack st) else dialogStack st)"
  have "set xs \<subseteq> set (dialogStack st)"
    by (cases "dialogStack st") (auto simp: xs_def)
  then have "priority ` set xs \<subseteq> priority ` set (dialogStack st)"
    by (rule image_mono)
  with assms(1) have old: "NaN \<notin> priority ` set xs" by blast
  have new: "priority (newDialog k options) \<noteq> NaN"
    using assms(2) by (auto simp: newDialog_priority split: option.splits)
  have eq: "priority ` set (dialogStack (snd (createDialog k options st))) =
      insert (priority (newDialog k options)) (priority ` set xs)"
    unfolding createDialog_state update_priority_set xs_def by (simp add: set_placed)
  show ?thesis
    unfolding eq using old new by simp
qed

lemma noNaN_perform:
  assumes "NaN \<notin> priority ` set (dialogStack st)" "\<not> givesNaN op"
  shows "NaN \<notin> priority ` set (dialogStack (perform op st))"
proof (cases op)
  case (Show options rnd)
  define dk where "dk = (case opt_key options of
               Some k \<Rightarrow> if k \<noteq> [] then k else genDialogKey rnd
             | None \<Rightarrow> genDialogKey rnd)"
  have "opt_priority options \<noteq> Some NaN" using assms(2) Show by simp
  then show ?thesis
    using assms(1) Show showDialog_cases [OF dk_def, of st]
    by (simp add: noNaN_reshow noNaN_create)
next
  case (ShowExtension options)
  have p: "opt_priority options \<noteq> Some NaN" using assms(2) ShowExtension by simp
  show ?thesis
  proof (cases "opt_key options = None \<or> opt_key options = Some []")
    case True
    with assms(1) ShowExtension show ?thesis by (simp add: showExtensionDialog_nokey)
  next
    case False
    then obtain k where k: "opt_key options = Some k" "k \<noteq> []" by auto
    define ek where "ek = (if startsWith k ''extension-'' then k else ''extension-'' @ k)"
    show ?thesis
      using assms(1) p ShowExtension showExtensionDialog_cases [OF k ek_def, of st]
      by (simp add: noNaN_reshow noNaN_create)
  qed
next
  case (Rise k)
  with assms(1) show ?thesis by (simp add: noNaN_rise)
next
  case (Close options)
  with assms(1) show ?thesis by (simp add: noNaN_close)
qed

lemma noNaN_run:
  "\<forall>op\<in>set ops. \<not> givesNaN op \<Longrightarrow> \<forall>d\<in>set (dialogStack (run ops)). priority d \<noteq> NaN"
proof (induction ops rule: rev_induct)
  case Nil
  then show ?case by (simp add: run_def initial_def)
next
  case (snoc op ops)
  then have "NaN \<notin> priority ` set (dialogStack (run ops))" "\<not> givesNaN op"
    by (simp_all add: noNaN_iff)
  then have "NaN \<notin> priority ` set (dialogStack (perform op (run ops)))"
    by (rule noNaN_perform)
  then show ?case
    by (simp add: run_snoc noNaN_iff)
qed

lemma sorted_adjacent:
  assumes "prioritySorted xs" "\<forall>d\<in>set xs. priority d \<noteq> NaN" "Suc i < length xs"
  shows "lessEq (priority (xs ! Suc i)) (priority (xs ! i))"
proof -
  have "filter (\<lambda>d. priority d \<noteq> NaN) xs = xs"
    using assms(2) by simp
  with assms(1) have "sorted_wrt (\<lambda>a b. lessEq (priority b) (priority a)) xs"
    by (simp add: prioritySorted_def)
  then show ?thesis
    using assms(3) by (simp add: sorted_wrt_iff_nth_less)
qed

lemma one_with_key:
  "distinct (map key xs) \<Longrightarrow> k \<in> key ` set xs \<Longrightarrow> length (filter (\<lambda>d. key d = k) xs) = 1"
proof (induction xs)
  case Nil
  then show ?case by simp
next
  case (Cons x xs)
  show ?case
  proof (cases "key x = k")
    case True
    with Cons.prems(1) have "k \<notin> key ` set xs"
      by simp
    then have "filter (\<lambda>d. key d = k) xs = []"
      by (auto simp: filter_empty_conv)
    with True show ?thesis by simp
  next
    case False
    with Cons show ?thesis by auto
  qed
qed

section \<open>Properties\<close>

subsection \<open>The key generator\<close>

text \<open>
  C9 (as amended). The generated key is \<^verbatim>\<open>dialog-\<close> followed by the characters at positions
  2 to 8 of the base-36 rendering of the random number, that is, by the first seven digits
  of its fraction: seven characters when the fraction has at least seven digits, fewer
  otherwise, and none for the number zero.
\<close>

theorem genDialogKey_shape:
  "genDialogKey (''0.'' @ digits) = ''dialog-'' @ take 7 digits
   \<and> genDialogKey ''0'' = ''dialog-''
   \<and> take 7 (genDialogKey rnd36) = ''dialog-''
   \<and> length (drop 7 (genDialogKey rnd36)) = min 7 (length rnd36 - 2)"
  by (simp add: genDialogKey_def slice_def)

text \<open>
  C9 as stated fails: \<^verbatim>\<open>(0.5).toString(36)\<close> is \<^verbatim>\<open>0.i\<close> and gives a key with one character
  after the dash, and \<^verbatim>\<open>(2 ** -14).toString(36)\<close> is \<^verbatim>\<open>0.002uik9\<close> and gives seven.
\<close>

theorem genDialogKey_not_six:
  "genDialogKey ''0.i'' = ''dialog-i''
   \<and> length (drop 7 (genDialogKey ''0.i'')) \<noteq> 6
   \<and> genDialogKey ''0.002uik9'' = ''dialog-002uik9''
   \<and> length (drop 7 (genDialogKey ''0.002uik9'')) \<noteq> 6"
  by (simp add: genDialogKey_def slice_def)

subsection \<open>Eviction at capacity, on a concrete run\<close>

text \<open>
  C1 (the code at the failing input). After ten dialogs \<^verbatim>\<open>d1\<close> to \<^verbatim>\<open>d10\<close> are shown with
  default priority and then an eleventh, \<^verbatim>\<open>d11\<close>, the first dialog is still open: the
  dialog that \<^verbatim>\<open>shift\<close> removed is \<^verbatim>\<open>d10\<close>, the one shown last before, which sat at index 0.
  The same holds for any eleven distinct keys (\<open>eleventh_show_first_stays\<close>).
\<close>

theorem eleventh_show_evicts_tenth:
  "isDialogOpen ''d1''
     (run (map (\<lambda>k. Show (keyOnly k ()) [])
        [''d1'', ''d2'', ''d3'', ''d4'', ''d5'', ''d6'', ''d7'', ''d8'', ''d9'', ''d10'', ''d11'']))
   \<and> \<not> isDialogOpen ''d10''
     (run (map (\<lambda>k. Show (keyOnly k ()) [])
        [''d1'', ''d2'', ''d3'', ''d4'', ''d5'', ''d6'', ''d7'', ''d8'', ''d9'', ''d10'', ''d11'']))
   \<and> map key (dialogStack
     (run (map (\<lambda>k. Show (keyOnly k ()) [])
        [''d1'', ''d2'', ''d3'', ''d4'', ''d5'', ''d6'', ''d7'', ''d8'', ''d9'', ''d10''])))
     = [''d10'', ''d9'', ''d8'', ''d7'', ''d6'', ''d5'', ''d4'', ''d3'', ''d2'', ''d1'']
   \<and> map key (dialogStack
     (run (map (\<lambda>k. Show (keyOnly k ()) [])
        [''d1'', ''d2'', ''d3'', ''d4'', ''d5'', ''d6'', ''d7'', ''d8'', ''d9'', ''d10'', ''d11''])))
     = [''d11'', ''d9'', ''d8'', ''d7'', ''d6'', ''d5'', ''d4'', ''d3'', ''d2'', ''d1'']"
  by code_simp

text \<open>
  C2 (as amended). In every reachable store, that is, in the initial store and after every
  public operation (show, showExtension, rise, close), the dialogs whose priority is not
  \<^verbatim>\<open>NaN\<close> are in descending order of priority. So when no dialog of the stack has the
  priority \<^verbatim>\<open>NaN\<close>, and in particular after any run of public operations none of which was
  given the priority \<^verbatim>\<open>NaN\<close>, each dialog's priority is at least that of the dialog after it.
\<close>

theorem priority_order_kept:
  assumes "reachable st"
  shows "sorted_wrt (\<lambda>a b. lessEq (priority b) (priority a))
           (filter (\<lambda>d. priority d \<noteq> NaN) (dialogStack st))
    \<and> ((\<forall>d\<in>set (dialogStack st). priority d \<noteq> NaN) \<and> Suc i < length (dialogStack st) \<longrightarrow>
          lessEq (priority (dialogStack st ! Suc i)) (priority (dialogStack st ! i)))
    \<and> ((\<forall>op\<in>set ops. \<not> givesNaN op) \<and> Suc j < length (dialogStack (run ops)) \<longrightarrow>
          lessEq (priority (dialogStack (run ops) ! Suc j)) (priority (dialogStack (run ops) ! j)))"
proof -
  have sorted: "prioritySorted (dialogStack s)" if "reachable s" for s :: "'a store"
    using that reachable_invariant by (auto simp: invariant_def)
  have "invariant (run ops)"
    by (rule reachable_invariant) (rule reachable_run)
  then have "prioritySorted (dialogStack (run ops))"
    by (simp add: invariant_def)
  then have "lessEq (priority (dialogStack (run ops) ! Suc j)) (priority (dialogStack (run ops) ! j))"
    if "\<forall>op\<in>set ops. \<not> givesNaN op" "Suc j < length (dialogStack (run ops))"
    using that noNaN_run [of ops] by (intro sorted_adjacent) auto
  moreover have "lessEq (priority (dialogStack st ! Suc i)) (priority (dialogStack st ! i))"
    if "\<forall>d\<in>set (dialogStack st). priority d \<noteq> NaN" "Suc i < length (dialogStack st)"
    using sorted [OF assms] that by (rule sorted_adjacent)
  moreover have "sorted_wrt (\<lambda>a b. lessEq (priority b) (priority a))
           (filter (\<lambda>d. priority d \<noteq> NaN) (dialogStack st))"
    using sorted [OF assms] by (simp add: prioritySorted_def)
  ultimately show ?thesis by blast
qed

theorem priority_order_kept_witness:
  "reachable (perform (Rise ''a'') twoDialogs)
   \<and> priority (dialogStack (perform (Rise ''a'') twoDialogs) ! 0) \<noteq> NaN
   \<and> priority (dialogStack (perform (Rise ''a'') twoDialogs) ! 1) \<noteq> NaN
   \<and> Suc 0 < length (dialogStack (perform (Rise ''a'') twoDialogs))
   \<and> lessEq (priority (dialogStack (perform (Rise ''a'') twoDialogs) ! Suc 0))
        (priority (dialogStack (perform (Rise ''a'') twoDialogs) ! 0))
   \<and> \<not> givesNaN (Show ((keyOnly ''b'' ())\<lparr>opt_priority := Some (Num 5)\<rparr>) [])
   \<and> Suc 0 < length (dialogStack twoDialogs)
   \<and> lessEq (priority (dialogStack twoDialogs ! Suc 0)) (priority (dialogStack twoDialogs ! 0))"
proof -
  let ?ops = "[Show (keyOnly ''a'' ()) [], Show ((keyOnly ''b'' ())\<lparr>opt_priority := Some (Num 5)\<rparr>) []]"
  have r: "reachable (perform (Rise ''a'') twoDialogs)"
    by (rule reachable_perform) (rule reachable_twoDialogs)
  have n: "priority (dialogStack (perform (Rise ''a'') twoDialogs) ! 0) \<noteq> NaN"
    "priority (dialogStack (perform (Rise ''a'') twoDialogs) ! 1) \<noteq> NaN"
    by code_simp+
  have a: "\<forall>d\<in>set (dialogStack (perform (Rise ''a'') twoDialogs)). priority d \<noteq> NaN"
    by code_simp
  have l: "Suc 0 < length (dialogStack (perform (Rise ''a'') twoDialogs))"
    "Suc 0 < length (dialogStack twoDialogs)"
    by code_simp+
  have g: "\<forall>op\<in>set ?ops. \<not> givesNaN op"
    "\<not> givesNaN (Show ((keyOnly ''b'' ())\<lparr>opt_priority := Some (Num 5)\<rparr>) [])"
    by (simp_all add: keyOnly_def)
  have t: "twoDialogs = run ?ops"
    by (simp add: twoDialogs_def)
  show ?thesis
    using r n a l g(2) l(2) [unfolded t] g(1)
      priority_order_kept [OF r, of 0 ?ops 0]
    unfolding t by blast
qed

text \<open>
  C2 as stated fails: \<^verbatim>\<open>x <= NaN\<close> and \<^verbatim>\<open>NaN <= x\<close> are false, so a dialog of priority \<^verbatim>\<open>NaN\<close> is
  put at the end and no later dialog is put before it. After shows with priorities \<^verbatim>\<open>NaN\<close>, 1
  (the default) and 5 the priorities are \<^verbatim>\<open>[NaN, 5, 1]\<close>, and \<^verbatim>\<open>NaN >= 5\<close> is false.
\<close>

theorem priority_order_broken_by_NaN:
  "reachable nanDialogs
   \<and> map priority (dialogStack nanDialogs) = [NaN, Num 5, Num 1]
   \<and> Suc 0 < length (dialogStack nanDialogs)
   \<and> \<not> lessEq (priority (dialogStack nanDialogs ! Suc 0)) (priority (dialogStack nanDialogs ! 0))"
proof -
  have "reachable nanDialogs"
    unfolding nanDialogs_def by (rule reachable_run)
  moreover have "map priority (dialogStack nanDialogs) = [NaN, Num 5, Num 1]"
    by code_simp
  moreover have "Suc 0 < length (dialogStack nanDialogs)"
    by code_simp
  moreover have "\<not> lessEq (priority (dialogStack nanDialogs ! Suc 0)) (priority (dialogStack nanDialogs ! 0))"
    by code_simp
  ultimately show ?thesis by blast
qed

text \<open>
  C3. In every reachable store at most one dialog has \<^verbatim>\<open>closeOnEscape = true\<close>; a dialog that
  has it is the one whose key is the active key, and its \<^verbatim>\<open>closable\<close> flag is \<^verbatim>\<open>true\<close>; a
  dialog that is not the active one, or whose \<^verbatim>\<open>closable\<close> flag is not \<^verbatim>\<open>true\<close>, has
  \<^verbatim>\<open>closeOnEscape = false\<close>.
\<close>

theorem single_escape_entry:
  assumes "reachable st"
  shows "length (filter escapable (dialogStack st)) \<le> 1
    \<and> (\<forall>d\<in>set (dialogStack st). escapable d \<longrightarrow>
          activeKey st = Some (key d) \<and> closable (dialogComponentProps d) = Some True)
    \<and> (\<forall>d\<in>set (dialogStack st).
          activeKey st \<noteq> Some (key d) \<or> closable (dialogComponentProps d) \<noteq> Some True \<longrightarrow>
          closeOnEscape (dialogComponentProps d) = Some False)"
proof -
  have inv: "invariant st" using assms by (rule reachable_invariant)
  then have flags: "\<forall>d\<in>set (dialogStack st).
      closeOnEscape (dialogComponentProps d) =
        Some (Some (key d) = activeKey st \<and> truthy (closable (dialogComponentProps d)))"
    by (simp add: invariant_def escapeFlagsSet_def)
  have t: "truthy c = (c = Some True)" for c
    by (cases c) auto
  have a: "\<forall>d\<in>set (dialogStack st). escapable d \<longrightarrow>
          activeKey st = Some (key d) \<and> closable (dialogComponentProps d) = Some True"
    using flags by (auto simp: escapable_def t)
  have b: "\<forall>d\<in>set (dialogStack st).
          activeKey st \<noteq> Some (key d) \<or> closable (dialogComponentProps d) \<noteq> Some True \<longrightarrow>
          closeOnEscape (dialogComponentProps d) = Some False"
    using flags by (auto simp: t)
  have "distinct (map key (dialogStack st))"
    using inv by (simp add: invariant_def)
  moreover have "\<forall>d\<in>set (dialogStack st). escapable d \<longrightarrow> Some (key d) = activeKey st"
    using a by auto
  ultimately have "length (filter escapable (dialogStack st)) \<le> 1"
    by (rule escapable_le_one)
  with a b show ?thesis by blast
qed

theorem single_escape_entry_witness:
  "reachable twoDialogs
   \<and> length (filter escapable (dialogStack twoDialogs)) \<le> 1
   \<and> dialogStack twoDialogs ! 0 \<in> set (dialogStack twoDialogs)
   \<and> escapable (dialogStack twoDialogs ! 0)
   \<and> activeKey twoDialogs = Some (key (dialogStack twoDialogs ! 0))
   \<and> closable (dialogComponentProps (dialogStack twoDialogs ! 0)) = Some True
   \<and> dialogStack twoDialogs ! 1 \<in> set (dialogStack twoDialogs)
   \<and> activeKey twoDialogs \<noteq> Some (key (dialogStack twoDialogs ! 1))
   \<and> closeOnEscape (dialogComponentProps (dialogStack twoDialogs ! 1)) = Some False"
proof -
  have m: "dialogStack twoDialogs ! 0 \<in> set (dialogStack twoDialogs)"
    "dialogStack twoDialogs ! 1 \<in> set (dialogStack twoDialogs)"
    by code_simp+
  have e: "escapable (dialogStack twoDialogs ! 0)"
    by code_simp
  have n: "activeKey twoDialogs \<noteq> Some (key (dialogStack twoDialogs ! 1))"
    by code_simp
  show ?thesis
    using reachable_twoDialogs m e n single_escape_entry [OF reachable_twoDialogs] by blast
qed

text \<open>
  C4. In every reachable store: if the stack is non-empty and the active key is set, the
  active key is the key of a dialog in the stack; if the stack is empty, the active key is
  null. (Moreover the active key is set whenever the stack is non-empty.)
\<close>

theorem active_key_live:
  assumes "reachable st"
  shows "(dialogStack st \<noteq> [] \<and> activeKey st \<noteq> None \<longrightarrow>
            (\<exists>d\<in>set (dialogStack st). activeKey st = Some (key d)))
    \<and> (dialogStack st = [] \<longrightarrow> activeKey st = None)
    \<and> (dialogStack st \<noteq> [] \<longrightarrow> activeKey st \<noteq> None)"
proof -
  have "activeKeyLive st"
    using assms reachable_invariant by (auto simp: invariant_def)
  then show ?thesis
    by (auto simp: activeKeyLive_def split: if_splits)
qed

theorem active_key_live_witness:
  "reachable twoDialogs \<and> dialogStack twoDialogs \<noteq> []
   \<and> activeKey twoDialogs \<noteq> None
   \<and> reachable (perform (Close None) (perform (Close None) twoDialogs))
   \<and> dialogStack (perform (Close None) (perform (Close None) twoDialogs)) = []
   \<and> activeKey (perform (Close None) (perform (Close None) twoDialogs)) = None"
proof -
  have r: "reachable (perform (Close None) (perform (Close None) twoDialogs))"
    by (intro reachable_perform reachable_twoDialogs)
  have n: "dialogStack twoDialogs \<noteq> []"
    by code_simp
  have e: "dialogStack (perform (Close None) (perform (Close None) twoDialogs)) = []"
    by code_simp
  show ?thesis
    using r n e reachable_twoDialogs active_key_live [OF reachable_twoDialogs]
      active_key_live [OF r]
    by blast
qed

text \<open>
  C5. A reachable stack never holds more than 10 dialogs. When a show or showExtension
  creates a dialog while the stack holds 10, the stack afterwards is the old stack without
  its dialog at index 0, with the new dialog placed by priority (10 dialogs again); the
  dialog that was at index 0 is no longer open, and no \<^verbatim>\<open>onClose\<close> callback has run.
\<close>

theorem capacity_bound:
  assumes "reachable st"
  shows "length (dialogStack st) \<le> 10
    \<and> (length (dialogStack st) = 10 \<and> creates op st \<longrightarrow>
         length (dialogStack (perform op st)) = 10
         \<and> (\<exists>d. key d \<notin> key ` set (dialogStack st)
               \<and> map forgetEscape (dialogStack (perform op st)) =
                   map forgetEscape (placed d (tl (dialogStack st))))
         \<and> \<not> isDialogOpen (key (hd (dialogStack st))) (perform op st)
         \<and> onCloseCalls (perform op st) = onCloseCalls st)"
proof -
  have inv: "invariant st" using assms by (rule reachable_invariant)
  then have le: "length (dialogStack st) \<le> 10" by (simp add: invariant_def)
  have "length (dialogStack (perform op st)) = 10
         \<and> (\<exists>d. key d \<notin> key ` set (dialogStack st)
               \<and> map forgetEscape (dialogStack (perform op st)) =
                   map forgetEscape (placed d (tl (dialogStack st))))
         \<and> \<not> isDialogOpen (key (hd (dialogStack st))) (perform op st)
         \<and> onCloseCalls (perform op st) = onCloseCalls st"
    if ten: "length (dialogStack st) = 10" and c: "creates op st"
  proof (cases op)
    case (Show options rnd36)
    define dk where "dk = (case opt_key options of
               Some k \<Rightarrow> if k \<noteq> [] then k else genDialogKey rnd36
             | None \<Rightarrow> genDialogKey rnd36)"
    have closed: "\<not> isDialogOpen dk st" using c Show by (simp add: dk_def)
    then have "perform op st = snd (createDialog dk options st)"
      using Show showDialog_cases [OF dk_def, of st] by simp
    then show ?thesis
      using create_at_capacity [OF inv ten closed, of options] by auto
  next
    case (ShowExtension options)
    then obtain k where k: "opt_key options = Some k" "k \<noteq> []"
      using c by (auto split: option.splits)
    define ek where "ek = (if startsWith k ''extension-'' then k else ''extension-'' @ k)"
    have closed: "\<not> isDialogOpen ek st" using c ShowExtension k by (simp add: ek_def)
    then have "perform op st = snd (createDialog ek options st)"
      using ShowExtension showExtensionDialog_cases [OF k ek_def, of st] by simp
    then show ?thesis
      using create_at_capacity [OF inv ten closed, of options] by auto
  next
    case (Rise k)
    with c show ?thesis by simp
  next
    case (Close options)
    with c show ?thesis by simp
  qed
  with le show ?thesis by blast
qed

theorem capacity_bound_witness:
  "reachable tenDialogs \<and> length (dialogStack tenDialogs) = 10
   \<and> creates (Show (keyOnly ''d11'' ()) []) tenDialogs
   \<and> key (hd (dialogStack tenDialogs)) = ''d10''
   \<and> length (dialogStack (perform (Show (keyOnly ''d11'' ()) []) tenDialogs)) = 10
   \<and> \<not> isDialogOpen (key (hd (dialogStack tenDialogs)))
         (perform (Show (keyOnly ''d11'' ()) []) tenDialogs)
   \<and> onCloseCalls (perform (Show (keyOnly ''d11'' ()) []) tenDialogs) = onCloseCalls tenDialogs"
proof -
  have ten: "length (dialogStack tenDialogs) = 10"
    by code_simp
  have c: "creates (Show (keyOnly ''d11'' ()) []) tenDialogs"
    by code_simp
  have h: "key (hd (dialogStack tenDialogs)) = ''d10''"
    by code_simp
  show ?thesis
    using ten c h reachable_tenDialogs
      capacity_bound [OF reachable_tenDialogs, of "Show (keyOnly ''d11'' ()) []"]
    by blast
qed

text \<open>
  C6. For a stack \<^verbatim>\<open>[A, B]\<close> with priorities 5 and 1, \<^verbatim>\<open>rise\<close> with key \<^verbatim>\<open>B\<close> leaves the order
  \<^verbatim>\<open>[A, B]\<close> (no dialog changes but for the \<^verbatim>\<open>closeOnEscape\<close> flags) and makes \<^verbatim>\<open>B\<close> the active
  key. In general, for the first dialog \<open>d\<close> with the given key, \<^verbatim>\<open>rise\<close> takes \<open>d\<close> out and
  puts it back immediately before the first remaining dialog whose priority is at most its
  own (\<^verbatim>\<open><=\<close>), and at the end when there is none; the key becomes the active key.
\<close>

theorem rise_reinserts_by_priority:
  "map key (dialogStack (riseDialog ''B''
       (st\<lparr>dialogStack := [a\<lparr>key := ''A'', priority := Num 5\<rparr>, b\<lparr>key := ''B'', priority := Num 1\<rparr>]\<rparr>)))
     = [''A'', ''B'']
   \<and> map forgetEscape (dialogStack (riseDialog ''B''
       (st\<lparr>dialogStack := [a\<lparr>key := ''A'', priority := Num 5\<rparr>, b\<lparr>key := ''B'', priority := Num 1\<rparr>]\<rparr>)))
     = map forgetEscape [a\<lparr>key := ''A'', priority := Num 5\<rparr>, b\<lparr>key := ''B'', priority := Num 1\<rparr>]
   \<and> activeKey (riseDialog ''B''
       (st\<lparr>dialogStack := [a\<lparr>key := ''A'', priority := Num 5\<rparr>, b\<lparr>key := ''B'', priority := Num 1\<rparr>]\<rparr>))
     = Some ''B''
   \<and> (dialogStack st = pre @ d # post \<and> key d = k \<and> (\<forall>e\<in>set pre. key e \<noteq> k) \<longrightarrow>
        map forgetEscape (dialogStack (riseDialog k st)) =
          map forgetEscape
            (takeWhile (\<lambda>e. \<not> lessEq (priority e) (priority d)) (pre @ post) @ d #
             dropWhile (\<lambda>e. \<not> lessEq (priority e) (priority d)) (pre @ post))
        \<and> activeKey (riseDialog k st) = Some k
        \<and> ((\<forall>e\<in>set (pre @ post). \<not> lessEq (priority e) (priority d)) \<longrightarrow>
             map forgetEscape (dialogStack (riseDialog k st)) = map forgetEscape (pre @ post @ [d])))"
proof -
  have general: "map forgetEscape (dialogStack (riseDialog k' s)) =
          map forgetEscape
            (takeWhile (\<lambda>e. \<not> lessEq (priority e) (priority d')) (pre' @ post') @ d' #
             dropWhile (\<lambda>e. \<not> lessEq (priority e) (priority d')) (pre' @ post'))
        \<and> activeKey (riseDialog k' s) = Some k'"
    if "dialogStack s = pre' @ d' # post'" "key d' = k'" "\<forall>e\<in>set pre'. key e \<noteq> k'"
    for s :: "'a store" and pre' d' post' k'
    unfolding riseDialog_found [OF that] update_forget by (simp add: placed_def)
  let ?a = "a\<lparr>key := ''A'', priority := Num 5\<rparr>" and ?b = "b\<lparr>key := ''B'', priority := Num 1\<rparr>"
  let ?s = "st\<lparr>dialogStack := [?a, ?b]\<rparr>"
  have "dialogStack ?s = [?a] @ ?b # []" "key ?b = ''B''" "\<forall>e\<in>set [?a]. key e \<noteq> ''B''"
    by simp_all
  from general [OF this]
  have ab: "map forgetEscape (dialogStack (riseDialog ''B'' ?s)) = map forgetEscape [?a, ?b]"
    "activeKey (riseDialog ''B'' ?s) = Some ''B''"
    by simp_all
  from keys_of_forget [OF ab(1)]
  have "map key (dialogStack (riseDialog ''B'' ?s)) = [''A'', ''B'']" by simp
  moreover have "map forgetEscape (dialogStack (riseDialog k st)) = map forgetEscape (pre @ post @ [d])"
    if "dialogStack st = pre @ d # post" "key d = k" "\<forall>e\<in>set pre. key e \<noteq> k"
      "\<forall>e\<in>set (pre @ post). \<not> lessEq (priority e) (priority d)"
  proof -
    have "takeWhile (\<lambda>e. \<not> lessEq (priority e) (priority d)) (pre @ post) = pre @ post"
      "dropWhile (\<lambda>e. \<not> lessEq (priority e) (priority d)) (pre @ post) = []"
      using that(4) by simp_all
    with general [OF that(1-3)] show ?thesis by simp
  qed
  ultimately show ?thesis
    using ab general [of st pre d post k] by blast
qed

theorem rise_reinserts_by_priority_witness:
  "dialogStack twoDialogs = [dialogStack twoDialogs ! 0] @ (dialogStack twoDialogs ! 1) # []
   \<and> key (dialogStack twoDialogs ! 1) = ''a''
   \<and> key (dialogStack twoDialogs ! 0) \<noteq> ''a''
   \<and> \<not> lessEq (priority (dialogStack twoDialogs ! 0)) (priority (dialogStack twoDialogs ! 1))
   \<and> map forgetEscape (dialogStack (riseDialog ''a'' twoDialogs)) =
       map forgetEscape [dialogStack twoDialogs ! 0, dialogStack twoDialogs ! 1]
   \<and> activeKey (riseDialog ''a'' twoDialogs) = Some ''a''"
proof -
  let ?x = "dialogStack twoDialogs ! 0" and ?y = "dialogStack twoDialogs ! 1"
  have s: "dialogStack twoDialogs = [?x] @ ?y # []"
    by code_simp
  have k: "key ?y = ''a''" "key ?x \<noteq> ''a''"
    by code_simp+
  have p: "\<not> lessEq (priority ?x) (priority ?y)"
    by code_simp
  from k(2) have pre: "\<forall>e\<in>set [?x]. key e \<noteq> ''a''" by simp
  from p have all: "\<forall>e\<in>set ([?x] @ []). \<not> lessEq (priority e) (priority ?y)" by simp
  have "map forgetEscape (dialogStack (riseDialog ''a'' twoDialogs)) =
      map forgetEscape ([?x] @ [] @ [?y])"
    "activeKey (riseDialog ''a'' twoDialogs) = Some ''a''"
    using rise_reinserts_by_priority
        [where st = twoDialogs and pre = "[?x]" and d = ?y and post = "[]" and k = "''a''"]
      s k(1) pre all
    by blast+
  with s k p show ?thesis by simp
qed

text \<open>
  C7. When a key \<open>k\<close> is open, \<^verbatim>\<open>show\<close> with key \<open>k\<close> creates no second dialog: the stack
  keeps its length and its keys, the active key becomes \<open>k\<close>, and the dialog returned is the
  existing dialog with key \<open>k\<close>, now visible, and is in the stack. (The empty string is no
  key for \<^verbatim>\<open>show\<close>; no reachable store has a dialog with the empty key.)
\<close>

theorem show_open_key:
  assumes "isDialogOpen k st" and "opt_key options = Some k" and "k \<noteq> [] \<or> reachable st"
  shows "length (dialogStack (snd (showDialog options rnd36 st))) = length (dialogStack st)
    \<and> mset (map key (dialogStack (snd (showDialog options rnd36 st)))) =
        mset (map key (dialogStack st))
    \<and> activeKey (snd (showDialog options rnd36 st)) = Some k
    \<and> fst (showDialog options rnd36 st) \<in> set (dialogStack (snd (showDialog options rnd36 st)))
    \<and> key (fst (showDialog options rnd36 st)) = k
    \<and> visible (fst (showDialog options rnd36 st))
    \<and> (\<exists>d. find (\<lambda>d. key d = k) (dialogStack st) = Some d
          \<and> forgetEscape (fst (showDialog options rnd36 st)) = forgetEscape (d\<lparr>visible := True\<rparr>))"
proof -
  have eq: "showDialog options rnd36 st = reshow k st"
    using assms(1,3,2) by (rule showDialog_open)
  obtain d where d: "find (\<lambda>d. key d = k) (dialogStack st) = Some d"
    "forgetEscape (fst (reshow k st)) = forgetEscape (d\<lparr>visible := True\<rparr>)"
    "fst (reshow k st) \<in> set (dialogStack (snd (reshow k st)))"
    "mset (map key (dialogStack (snd (reshow k st)))) = mset (map key (dialogStack st))"
    "activeKey (snd (reshow k st)) = Some k"
    using reshow_open [OF assms(1)] by blast
  have "size (mset (map key (dialogStack (snd (reshow k st))))) =
      size (mset (map key (dialogStack st)))"
    using d(4) by simp
  then have len: "length (dialogStack (snd (reshow k st))) = length (dialogStack st)"
    by simp
  have "visible (forgetEscape (fst (reshow k st)))"
    unfolding d(2) by (simp add: forgetEscape_fields)
  then have vis: "visible (fst (reshow k st))"
    by (simp add: forgetEscape_fields)
  show ?thesis
    unfolding eq using d len vis reshow_key [OF assms(1)] by blast
qed

theorem show_open_key_witness:
  "isDialogOpen ''a'' twoDialogs
   \<and> opt_key ((keyOnly ''a'' ())\<lparr>opt_title := Some ''again''\<rparr>) = Some ''a''
   \<and> length (dialogStack (snd (showDialog ((keyOnly ''a'' ())\<lparr>opt_title := Some ''again''\<rparr>) [] twoDialogs)))
       = length (dialogStack twoDialogs)
   \<and> activeKey (snd (showDialog ((keyOnly ''a'' ())\<lparr>opt_title := Some ''again''\<rparr>) [] twoDialogs))
       = Some ''a''
   \<and> key (fst (showDialog ((keyOnly ''a'' ())\<lparr>opt_title := Some ''again''\<rparr>) [] twoDialogs)) = ''a''
   \<and> visible (fst (showDialog ((keyOnly ''a'' ())\<lparr>opt_title := Some ''again''\<rparr>) [] twoDialogs))"
proof -
  have o: "isDialogOpen ''a'' twoDialogs"
    by code_simp
  have k: "opt_key ((keyOnly ''a'' ())\<lparr>opt_title := Some ''again''\<rparr>) = Some ''a''"
    by (simp add: keyOnly_def)
  have n: "''a'' \<noteq> [] \<or> reachable twoDialogs"
    by simp
  show ?thesis
    using o k show_open_key [OF o k n, of "[]"] by blast
qed

text \<open>
  C8 (as amended). For every non-empty key \<open>k\<close>, \<^verbatim>\<open>showExtension\<close> works on the key \<open>ek\<close> that is
  \<open>k\<close> itself when \<open>k\<close> starts with \<^verbatim>\<open>extension-\<close>, and \<^verbatim>\<open>extension-\<close> followed by \<open>k\<close>
  otherwise. It returns a dialog with key \<open>ek\<close> that is in the stack, and makes \<open>ek\<close> the
  active key. When \<open>ek\<close> is open it addresses the existing dialog: the keys of the stack are
  unchanged and the dialog returned is the first one with key \<open>ek\<close>, made visible. When \<open>ek\<close>
  is not open it creates the dialog from the options, under the key \<open>ek\<close>, and places it by
  priority (after the eviction at capacity). In a reachable store exactly one dialog has the
  key \<open>ek\<close> afterwards. In particular the keys \<^verbatim>\<open>foo\<close> and \<^verbatim>\<open>extension-foo\<close> both give the key
  \<^verbatim>\<open>extension-foo\<close>, and one call with each leaves a single dialog.
\<close>

theorem extension_key_prefixed:
  fixes k :: string and options :: "'a ShowDialogOptions" and st :: "'a store" and c :: 'a
  defines "ek \<equiv> (if prefix ''extension-'' k then k else ''extension-'' @ k)"
    and "r \<equiv> showExtensionDialog options st"
  assumes "opt_key options = Some k" and "k \<noteq> []"
  shows "map_option key (fst r) = Some ek
    \<and> (\<exists>d. fst r = Some d \<and> d \<in> set (dialogStack (snd r)))
    \<and> activeKey (snd r) = Some ek
    \<and> (isDialogOpen ek st \<longrightarrow>
          mset (map key (dialogStack (snd r))) = mset (map key (dialogStack st))
          \<and> (\<exists>d. find (\<lambda>d. key d = ek) (dialogStack st) = Some d
                \<and> map_option forgetEscape (fst r) = Some (forgetEscape (d\<lparr>visible := True\<rparr>))))
    \<and> (\<not> isDialogOpen ek st \<longrightarrow>
          map_option forgetEscape (fst r) = Some (forgetEscape (newDialog ek options))
          \<and> map forgetEscape (dialogStack (snd r)) =
              map forgetEscape
                (placed (newDialog ek options)
                   (if 10 \<le> length (dialogStack st) then tl (dialogStack st) else dialogStack st)))
    \<and> (reachable st \<longrightarrow> length (filter (\<lambda>d. key d = ek) (dialogStack (snd r))) = 1)
    \<and> map_option key (fst (showExtensionDialog (keyOnly ''foo'' c) st)) = Some ''extension-foo''
    \<and> map_option key (fst (showExtensionDialog (keyOnly ''extension-foo'' c) st))
        = Some ''extension-foo''
    \<and> map key (dialogStack
          (run [ShowExtension (keyOnly ''foo'' c), ShowExtension (keyOnly ''extension-foo'' c)]))
        = [''extension-foo'']"
proof -
  have ek: "ek = (if startsWith k ''extension-'' then k else ''extension-'' @ k)"
    by (simp add: ek_def startsWith_prefix)
  note cases = showExtensionDialog_cases [OF assms(3,4) ek, of st]
  have ek': "ek = (if prefix ''extension-'' k then k else ''extension-'' @ k)"
    by (simp add: ek_def)
  note res = showExtensionDialog_result [OF assms(3,4) ek', of st]
  have opened: "mset (map key (dialogStack (snd r))) = mset (map key (dialogStack st))
          \<and> (\<exists>d. find (\<lambda>d. key d = ek) (dialogStack st) = Some d
                \<and> map_option forgetEscape (fst r) = Some (forgetEscape (d\<lparr>visible := True\<rparr>)))"
    if "isDialogOpen ek st"
    unfolding r_def cases using that reshow_open [OF that] by auto
  have created: "map_option forgetEscape (fst r) = Some (forgetEscape (newDialog ek options))
          \<and> map forgetEscape (dialogStack (snd r)) =
              map forgetEscape
                (placed (newDialog ek options)
                   (if 10 \<le> length (dialogStack st) then tl (dialogStack st) else dialogStack st))"
    if "\<not> isDialogOpen ek st"
    unfolding r_def cases using that createDialog_facts(1,3) [of ek options st] by simp
  have single: "length (filter (\<lambda>d. key d = ek) (dialogStack (snd r))) = 1"
    if "reachable st"
  proof -
    have "reachable (perform (ShowExtension options) st)"
      using that by (rule reachable_perform)
    then have "distinct (map key (dialogStack (snd r)))"
      using reachable_invariant by (auto simp: invariant_def r_def)
    moreover obtain d where "fst r = Some d" "d \<in> set (dialogStack (snd r))"
      using res(2) unfolding r_def by blast
    with res(1) have "ek \<in> key ` set (dialogStack (snd r))"
      unfolding r_def by auto
    ultimately show ?thesis by (rule one_with_key)
  qed
  have foo: "opt_key (keyOnly ''foo'' c) = Some ''foo''"
    "opt_key (keyOnly ''extension-foo'' c) = Some ''extension-foo''"
    by (simp_all add: keyOnly_def)
  have f1: "map_option key (fst (showExtensionDialog (keyOnly ''foo'' c) st)) = Some ''extension-foo''"
    using showExtensionDialog_result(1) [OF foo(1), of "''extension-foo''" st] by simp
  have f2: "map_option key (fst (showExtensionDialog (keyOnly ''extension-foo'' c) st))
      = Some ''extension-foo''"
    using showExtensionDialog_result(1) [OF foo(2), of "''extension-foo''" st] by simp
  have f3: "map key (dialogStack
          (run [ShowExtension (keyOnly ''foo'' c), ShowExtension (keyOnly ''extension-foo'' c)]))
        = [''extension-foo'']"
    by code_simp
  show ?thesis
    using res [folded r_def] opened created single f1 f2 f3 by blast
qed

theorem extension_key_prefixed_witness:
  "opt_key (keyOnly ''foo'' ()) = Some ''foo'' \<and> ''foo'' \<noteq> []
   \<and> reachable oneExtension \<and> isDialogOpen ''extension-foo'' oneExtension
   \<and> map_option key (fst (showExtensionDialog (keyOnly ''foo'' ()) oneExtension))
       = Some ''extension-foo''
   \<and> mset (map key (dialogStack (snd (showExtensionDialog (keyOnly ''foo'' ()) oneExtension))))
       = mset (map key (dialogStack oneExtension))
   \<and> length (filter (\<lambda>d. key d = ''extension-foo'')
        (dialogStack (snd (showExtensionDialog (keyOnly ''foo'' ()) oneExtension)))) = 1
   \<and> opt_key (keyOnly ''bar'' ()) = Some ''bar'' \<and> ''bar'' \<noteq> []
   \<and> \<not> isDialogOpen ''extension-bar'' twoDialogs
   \<and> map_option forgetEscape (fst (showExtensionDialog (keyOnly ''bar'' ()) twoDialogs))
       = Some (forgetEscape (newDialog ''extension-bar'' (keyOnly ''bar'' ())))
   \<and> activeKey (snd (showExtensionDialog (keyOnly ''bar'' ()) twoDialogs)) = Some ''extension-bar''"
proof -
  have k: "opt_key (keyOnly ''foo'' ()) = Some ''foo''" "opt_key (keyOnly ''bar'' ()) = Some ''bar''"
    by (simp_all add: keyOnly_def)
  have n: "''foo'' \<noteq> []" "''bar'' \<noteq> []"
    by simp_all
  have o: "isDialogOpen ''extension-foo'' oneExtension"
    by code_simp
  have b: "\<not> isDialogOpen ''extension-bar'' twoDialogs"
    by code_simp
  show ?thesis
    using k n o b reachable_oneExtension
      extension_key_prefixed [OF k(1) n(1), of oneExtension]
      extension_key_prefixed [OF k(2) n(2), of twoDialogs]
    by simp
qed

text \<open>
  C8 as stated fails for the empty key, which is a string like any other: the guard
  \<^verbatim>\<open>if (!key)\<close> returns nothing and leaves the store as it is, so no dialog with the key
  \<^verbatim>\<open>extension-\<close> is created or addressed.
\<close>

theorem extension_empty_key_ignored:
  "opt_key (keyOnly [] ()) = Some []
   \<and> fst (showExtensionDialog (keyOnly [] ()) twoDialogs) = None
   \<and> snd (showExtensionDialog (keyOnly [] ()) twoDialogs) = twoDialogs
   \<and> \<not> isDialogOpen ''extension-'' (snd (showExtensionDialog (keyOnly [] ()) twoDialogs))"
proof -
  have k: "opt_key (keyOnly [] ()) = Some []"
    by (simp add: keyOnly_def)
  then have "showExtensionDialog (keyOnly [] ()) twoDialogs = (None, twoDialogs)"
    by (simp add: showExtensionDialog_nokey)
  moreover have "\<not> isDialogOpen ''extension-'' twoDialogs"
    by code_simp
  ultimately show ?thesis using k by simp
qed

text \<open>
  C10 (as amended). When the key \<open>k\<close> is open, \<^verbatim>\<open>show\<close> with key \<open>k\<close> ignores every other option
  it is given, and so does \<^verbatim>\<open>showExtension\<close> with a key \<open>x\<close> that stands for \<open>k\<close>, that is, \<open>k\<close>
  is \<open>x\<close> when \<open>x\<close> starts with \<^verbatim>\<open>extension-\<close> and \<^verbatim>\<open>extension-\<close> followed by \<open>x\<close> otherwise:
  both return the existing dialog with only \<^verbatim>\<open>visible\<close> set to true and \<^verbatim>\<open>closeOnEscape\<close>
  recomputed (title, components, \<^verbatim>\<open>contentProps\<close>, priority and the other
  \<^verbatim>\<open>dialogComponentProps\<close> are those it had), and the stack holds the same dialogs as before,
  up to that change, the \<^verbatim>\<open>closeOnEscape\<close> flags and the order.
\<close>

theorem reshow_discards_options:
  assumes "isDialogOpen k st" and "k \<noteq> [] \<or> reachable st" and "opt_key options = Some k"
  shows "(opt_key options' = Some k \<longrightarrow>
            showDialog options' rnd' st = showDialog options rnd st)
    \<and> (opt_key xoptions = Some x \<and> x \<noteq> []
          \<and> k = (if prefix ''extension-'' x then x else ''extension-'' @ x) \<longrightarrow>
            showExtensionDialog xoptions st =
              (Some (fst (showDialog options rnd st)), snd (showDialog options rnd st)))
    \<and> (\<exists>d. find (\<lambda>d. key d = k) (dialogStack st) = Some d
          \<and> fst (showDialog options rnd st) =
              d\<lparr>visible := True,
                dialogComponentProps := (dialogComponentProps d)
                  \<lparr>closeOnEscape :=
                     closeOnEscape (dialogComponentProps (fst (showDialog options rnd st)))\<rparr>\<rparr>
          \<and> mset (map forgetEscape (dialogStack (snd (showDialog options rnd st)))) =
              add_mset (forgetEscape (d\<lparr>visible := True\<rparr>))
                (mset (map forgetEscape (remove1 d (dialogStack st)))))"
proof -
  have eq: "showDialog options rnd st = reshow k st"
    using assms by (rule showDialog_open)
  have other: "showDialog options' rnd' st = showDialog options rnd st"
    if "opt_key options' = Some k"
    unfolding eq using assms(1,2) that by (rule showDialog_open)
  have ext: "showExtensionDialog xoptions st =
      (Some (fst (showDialog options rnd st)), snd (showDialog options rnd st))"
    if "opt_key xoptions = Some x" "x \<noteq> []"
      "k = (if prefix ''extension-'' x then x else ''extension-'' @ x)"
    unfolding eq using that assms(1) by (rule showExtensionDialog_open)
  obtain d where d: "find (\<lambda>d. key d = k) (dialogStack st) = Some d"
    "forgetEscape (fst (reshow k st)) = forgetEscape (d\<lparr>visible := True\<rparr>)"
    "mset (map forgetEscape (dialogStack (snd (reshow k st)))) =
        add_mset (forgetEscape (d\<lparr>visible := True\<rparr>))
          (mset (map forgetEscape (remove1 d (dialogStack st))))"
    using reshow_open [OF assms(1)] by blast
  from d(2) have "fst (reshow k st) =
      d\<lparr>visible := True,
        dialogComponentProps := (dialogComponentProps d)
          \<lparr>closeOnEscape := closeOnEscape (dialogComponentProps (fst (reshow k st)))\<rparr>\<rparr>"
    by (simp add: forgetEscape_eq)
  with d(1,3) other ext show ?thesis
    unfolding eq by blast
qed

theorem reshow_discards_options_witness:
  "isDialogOpen ''extension-foo'' oneExtension
   \<and> opt_key (keyOnly ''extension-foo'' ()) = Some ''extension-foo''
   \<and> opt_key ((keyOnly ''extension-foo'' ())\<lparr>opt_title := Some ''t'', opt_priority := Some (Num 7)\<rparr>)
       = Some ''extension-foo''
   \<and> opt_key ((keyOnly ''foo'' ())\<lparr>opt_title := Some ''u''\<rparr>) = Some ''foo''
   \<and> showDialog ((keyOnly ''extension-foo'' ())\<lparr>opt_title := Some ''t'', opt_priority := Some (Num 7)\<rparr>)
         ''0.i'' oneExtension
       = showDialog (keyOnly ''extension-foo'' ()) [] oneExtension
   \<and> showExtensionDialog ((keyOnly ''foo'' ())\<lparr>opt_title := Some ''u''\<rparr>) oneExtension
       = (Some (fst (showDialog (keyOnly ''extension-foo'' ()) [] oneExtension)),
          snd (showDialog (keyOnly ''extension-foo'' ()) [] oneExtension))
   \<and> title (fst (showDialog (keyOnly ''extension-foo'' ()) [] oneExtension)) = None"
proof -
  have o: "isDialogOpen ''extension-foo'' oneExtension"
    by code_simp
  have n: "''extension-foo'' \<noteq> [] \<or> reachable oneExtension"
    by simp
  have k: "opt_key (keyOnly ''extension-foo'' ()) = Some ''extension-foo''"
    "opt_key ((keyOnly ''extension-foo'' ())\<lparr>opt_title := Some ''t'', opt_priority := Some (Num 7)\<rparr>)
       = Some ''extension-foo''"
    "opt_key ((keyOnly ''foo'' ())\<lparr>opt_title := Some ''u''\<rparr>) = Some ''foo''"
    by (simp_all add: keyOnly_def)
  have x: "''foo'' \<noteq> []"
    "''extension-foo'' = (if prefix ''extension-'' ''foo'' then ''foo'' else ''extension-'' @ ''foo'')"
    by simp_all
  have t: "title (fst (showDialog (keyOnly ''extension-foo'' ()) [] oneExtension)) = None"
    by code_simp
  show ?thesis
    using o k x t
      reshow_discards_options [OF o n k(1),
        where options' = "(keyOnly ''extension-foo'' ())\<lparr>opt_title := Some ''t'', opt_priority := Some (Num 7)\<rparr>"
          and xoptions = "(keyOnly ''foo'' ())\<lparr>opt_title := Some ''u''\<rparr>" and x = "''foo''"
          and rnd = "[]" and rnd' = "''0.i''"]
    by blast
qed

text \<open>
  C10 as stated fails for \<^verbatim>\<open>showExtension\<close> with a key that is open only without the prefix:
  after \<^verbatim>\<open>show\<close> with key \<^verbatim>\<open>foo\<close>, \<^verbatim>\<open>showExtension\<close> with key \<^verbatim>\<open>foo\<close>, a title and priority 7 does
  not address the dialog \<^verbatim>\<open>foo\<close>; it creates a second dialog, \<^verbatim>\<open>extension-foo\<close>, with the title
  and the priority it was given.
\<close>

theorem showExtension_plain_key_creates:
  "isDialogOpen ''foo'' plainFoo
   \<and> length (dialogStack plainFoo) = 1
   \<and> map key (dialogStack (snd (showExtensionDialog
        ((keyOnly ''foo'' ())\<lparr>opt_title := Some ''u'', opt_priority := Some (Num 7)\<rparr>) plainFoo)))
       = [''extension-foo'', ''foo'']
   \<and> map_option title (fst (showExtensionDialog
        ((keyOnly ''foo'' ())\<lparr>opt_title := Some ''u'', opt_priority := Some (Num 7)\<rparr>) plainFoo))
       = Some (Some ''u'')
   \<and> map_option priority (fst (showExtensionDialog
        ((keyOnly ''foo'' ())\<lparr>opt_title := Some ''u'', opt_priority := Some (Num 7)\<rparr>) plainFoo))
       = Some (Num 7)"
  by code_simp

end
